theory Spec2Isabelle
  imports Complex_Main "HOL-Library.Multiset"
begin

section \<open>JavaScript strings and ordered maps\<close>

text \<open>
  Strings are lists of characters; the model covers strings whose code units are below 256.
  The functions below are the \<^verbatim>\<open>String.prototype\<close> methods the scanner calls, with a
  one-character or literal-string argument as in the source.
\<close>

definition startsWith :: "string \<Rightarrow> string \<Rightarrow> bool" where
  "startsWith s p = (take (length p) s = p)"

definition endsWith :: "string \<Rightarrow> string \<Rightarrow> bool" where
  "endsWith s p = (length p \<le> length s \<and> drop (length s - length p) s = p)"

text \<open>\<^verbatim>\<open>s.replace(pat, rep)\<close> with a string pattern: only the first occurrence is replaced.\<close>

fun replace :: "string \<Rightarrow> string \<Rightarrow> string \<Rightarrow> string" where
  "replace [] pat rep = (if pat = [] then rep else [])"
| "replace (c # cs) pat rep =
     (if startsWith (c # cs) pat then rep @ drop (length pat) (c # cs)
      else c # replace cs pat rep)"

fun includesStr :: "string \<Rightarrow> string \<Rightarrow> bool" where
  "includesStr [] sub = (sub = [])"
| "includesStr (c # cs) sub = (startsWith (c # cs) sub \<or> includesStr cs sub)"

text \<open>\<^verbatim>\<open>s.split(c)\<close> for a one-character separator; it never returns the empty array.\<close>

fun split :: "string \<Rightarrow> char \<Rightarrow> string list" where
  "split [] c = [[]]"
| "split (x # xs) c =
     (if x = c then [] # split xs c
      else (case split xs c of [] \<Rightarrow> [[x]] | h # t \<Rightarrow> (x # h) # t))"

text \<open>\<^verbatim>\<open>s.split(c)[0]\<close>: the part before the first separator.\<close>

definition splitFirst :: "string \<Rightarrow> char \<Rightarrow> string" where
  "splitFirst s c = (case split s c of [] \<Rightarrow> [] | h # t \<Rightarrow> h)"

text \<open>
  A JavaScript \<^verbatim>\<open>Map\<close> keeps its keys in insertion order; \<^verbatim>\<open>set\<close> on a key that is
  present replaces the value and keeps the key's position.
\<close>

fun mapSet :: "('k \<times> 'v) list \<Rightarrow> 'k \<Rightarrow> 'v \<Rightarrow> ('k \<times> 'v) list" where
  "mapSet [] k v = [(k, v)]"
| "mapSet ((k', v') # m) k v = (if k' = k then (k, v) # m else (k', v') # mapSet m k v)"

definition mapHas :: "('k \<times> 'v) list \<Rightarrow> 'k \<Rightarrow> bool" where
  "mapHas m k = (map_of m k \<noteq> None)"

definition mapGet :: "('k \<times> 'v) list \<Rightarrow> 'k \<Rightarrow> 'v option" where
  "mapGet m k = map_of m k"

section \<open>Data model of the scanner\<close>

text \<open>
  Parsed JSON. An object is the list of its entries in the order \<^verbatim>\<open>Object.entries\<close>
  enumerates them. Numbers are only ever tested for being zero.
\<close>

datatype json =
    JNull
  | JBool bool
  | JNum rat
  | JStr string
  | JArr "json list"
  | JObj "(string \<times> json) list"

record reference =
  sourceFile :: string
  type :: string
  originalReference :: string

record action =
  filePath :: string
  relativePath :: string
  urlPath :: string
  content :: json
  references :: "reference list"

text \<open>
  The scanner object: \<^verbatim>\<open>this.serverActions\<close>, \<^verbatim>\<open>this.references\<close> (here \<open>refLookup\<close>, the
  auxiliary lookup keyed by normalized path) and the lines written by \<^verbatim>\<open>console.warn\<close>.
\<close>

record scanner =
  projectRoot :: string
  serverActions :: "(string \<times> action) list"
  refLookup :: "(string \<times> reference list) list"
  warnings :: "string list"

record summary =
  totalActions :: nat
  used :: nat
  possiblyUnused :: nat
  likelyUnused :: nat

text \<open>An entry of \<^verbatim>\<open>results.actions\<close>; the fields carry the prefix \<open>res_\<close>.\<close>

record resultAction =
  res_urlPath :: string
  res_filePath :: string
  res_status :: string
  res_confidence :: string
  res_referenceCount :: nat
  res_references :: "reference list"
  res_content :: json

record emptyFolder =
  ef_path :: string
  ef_relativePath :: string

record results =
  res_summary :: summary
  res_actions :: "resultAction list"
  res_emptyFolders :: "emptyFolder list"

section \<open>analyzeResults\<close>

text \<open>The body of the loop over \<^verbatim>\<open>this.serverActions\<close>: one entry is classified and pushed.\<close>

definition analyzeAction :: "results \<Rightarrow> string \<times> action \<Rightarrow> results" where
  "analyzeAction r ka =
     (let referenceCount = length (references (snd ka)) in
      if referenceCount = 0 then
        r\<lparr>res_summary := (res_summary r)\<lparr>likelyUnused := likelyUnused (res_summary r) + 1\<rparr>,
          res_actions := res_actions r @
            [\<lparr>res_urlPath = fst ka, res_filePath = relativePath (snd ka),
              res_status = ''unused'', res_confidence = ''safe-to-delete'',
              res_referenceCount = referenceCount, res_references = references (snd ka),
              res_content = content (snd ka)\<rparr>]\<rparr>
      else
        r\<lparr>res_summary := (res_summary r)\<lparr>used := used (res_summary r) + 1\<rparr>,
          res_actions := res_actions r @
            [\<lparr>res_urlPath = fst ka, res_filePath = relativePath (snd ka),
              res_status = ''used'', res_confidence = ''review-needed'',
              res_referenceCount = referenceCount, res_references = references (snd ka),
              res_content = content (snd ka)\<rparr>]\<rparr>)"

text \<open>
  The comparator's table \<^verbatim>\<open>{ 'safe-to-delete': 0, 'review-needed': 1 }\<close>; the loop above
  produces no other confidence.
\<close>

definition confidenceOrder :: "string \<Rightarrow> nat" where
  "confidenceOrder c = (if c = ''safe-to-delete'' then 0 else 1)"

text \<open>
  \<^verbatim>\<open>Array.prototype.sort\<close> is stable; \<open>sort_key\<close> is the stable insertion sort on the
  comparator's key.
\<close>

definition analyzeResults :: "scanner \<Rightarrow> results" where
  "analyzeResults st =
     (let r0 = \<lparr>res_summary = \<lparr>totalActions = length (serverActions st), used = 0,
                                possiblyUnused = 0, likelyUnused = 0\<rparr>,
                res_actions = [], res_emptyFolders = []\<rparr>;
          r1 = foldl analyzeAction r0 (serverActions st)
      in r1\<lparr>res_actions := sort_key (\<lambda>a. confidenceOrder (res_confidence a)) (res_actions r1)\<rparr>)"

text \<open>What the loop pushes for one entry of the index.\<close>

definition resultOf :: "string \<times> action \<Rightarrow> resultAction" where
  "resultOf ka =
     \<lparr>res_urlPath = fst ka, res_filePath = relativePath (snd ka),
      res_status = (if references (snd ka) = [] then ''unused'' else ''used''),
      res_confidence = (if references (snd ka) = [] then ''safe-to-delete'' else ''review-needed''),
      res_referenceCount = length (references (snd ka)), res_references = references (snd ka),
      res_content = content (snd ka)\<rparr>"

section \<open>Path normalization and the reference index\<close>

text \<open>
  \<^verbatim>\<open>path.join(dir, item)\<close> and \<^verbatim>\<open>path.relative(base, file)\<close> on POSIX paths, for a
  normalized \<open>dir\<close> other than the filesystem root and a \<open>file\<close> below \<open>base\<close>: the scanner
  passes only files that its globs returned below the project root.
\<close>

definition pathJoin :: "string \<Rightarrow> string \<Rightarrow> string" where
  "pathJoin dir item = dir @ ''/'' @ item"

definition pathRelative :: "string \<Rightarrow> string \<Rightarrow> string" where
  "pathRelative base file =
     (if startsWith file (base @ ''/'') then drop (length base + 1) file else file)"

definition filePathToUrl :: "string \<Rightarrow> string" where
  "filePathToUrl fp =
     (if startsWith fp ''app/api/'' then ''/'' @ replace (replace fp ''app/'' []) ''.json'' []
      else if startsWith fp ''app/lib/'' then replace (replace fp ''app/'' []) ''.json'' []
      else replace fp ''.json'' [])"

text \<open>The first half of \<^verbatim>\<open>addReference\<close>: the normalized path of a raw reference.\<close>

definition normalizePath :: "string \<Rightarrow> string" where
  "normalizePath referencedPath =
     (let normalizedPath =
        (if startsWith referencedPath ''/api/'' then referencedPath
         else if startsWith referencedPath ''/app/api/''
           then replace referencedPath ''/app/api/'' ''/api/''
         else if \<not> startsWith referencedPath ''/'' \<and> \<not> startsWith referencedPath ''lib/''
           then ''lib/'' @ referencedPath
         else referencedPath)
      in if endsWith normalizedPath ''.json'' then replace normalizedPath ''.json'' []
         else normalizedPath)"

text \<open>\<^verbatim>\<open>this.serverActions.get(k).references.push(r)\<close> for a key that is present.\<close>

fun pushReference :: "(string \<times> action) list \<Rightarrow> string \<Rightarrow> reference \<Rightarrow> (string \<times> action) list" where
  "pushReference [] k r = []"
| "pushReference ((k', a) # m) k r =
     (if k' = k then (k', a\<lparr>references := references a @ [r]\<rparr>) # m
      else (k', a) # pushReference m k r)"

fun pushLookup :: "(string \<times> reference list) list \<Rightarrow> string \<Rightarrow> reference \<Rightarrow> (string \<times> reference list) list" where
  "pushLookup [] k r = []"
| "pushLookup ((k', rs) # m) k r =
     (if k' = k then (k', rs @ [r]) # m else (k', rs) # pushLookup m k r)"

definition addReference :: "scanner \<Rightarrow> string \<Rightarrow> string \<Rightarrow> string \<Rightarrow> scanner" where
  "addReference st referencedPath file ty =
     (let normalizedPath = normalizePath referencedPath;
          r = \<lparr>sourceFile = pathRelative (projectRoot st) file, type = ty,
               originalReference = referencedPath\<rparr>;
          acts = (if mapHas (serverActions st) normalizedPath
                  then pushReference (serverActions st) normalizedPath r
                  else serverActions st);
          lk = (if \<not> mapHas (refLookup st) normalizedPath
                then mapSet (refLookup st) normalizedPath []
                else refLookup st)
      in st\<lparr>serverActions := acts, refLookup := pushLookup lk normalizedPath r\<rparr>)"

section \<open>Regular expressions of the scanner\<close>

text \<open>
  The scanner's patterns use literals, character classes, greedy \<^verbatim>\<open>*\<close> and \<^verbatim>\<open>+\<close> on a
  class, and one capturing group. \<open>rxMatch\<close> is the backtracking matcher at one position:
  it returns the rest of the input after the match, and the input at the opening and at
  the closing of the group.
\<close>

datatype cclass = OneOf "char list" | NoneOf "char list"

fun inClass :: "cclass \<Rightarrow> char \<Rightarrow> bool" where
  "inClass (OneOf cs) c = (c \<in> set cs)"
| "inClass (NoneOf cs) c = (c \<notin> set cs)"

datatype rx = Lit char | Cls cclass | Star cclass | Plus cclass | GroupOpen | GroupClose

fun rxMatch :: "rx list \<Rightarrow> string \<Rightarrow> (string \<times> string \<times> string) option" where
  "rxMatch [] s = Some (s, [], [])"
| "rxMatch (Lit c # rs) [] = None"
| "rxMatch (Lit c # rs) (x # xs) = (if x = c then rxMatch rs xs else None)"
| "rxMatch (Cls k # rs) [] = None"
| "rxMatch (Cls k # rs) (x # xs) = (if inClass k x then rxMatch rs xs else None)"
| "rxMatch (Star k # rs) [] = rxMatch rs []"
| "rxMatch (Star k # rs) (x # xs) =
     (if inClass k x
      then (case rxMatch (Star k # rs) xs of
              Some r \<Rightarrow> Some r
            | None \<Rightarrow> rxMatch rs (x # xs))
      else rxMatch rs (x # xs))"
| "rxMatch (Plus k # rs) [] = None"
| "rxMatch (Plus k # rs) (x # xs) = (if inClass k x then rxMatch (Star k # rs) xs else None)"
| "rxMatch (GroupOpen # rs) s =
     (case rxMatch rs s of None \<Rightarrow> None | Some (rest, go, gc) \<Rightarrow> Some (rest, s, gc))"
| "rxMatch (GroupClose # rs) s =
     (case rxMatch rs s of None \<Rightarrow> None | Some (rest, go, gc) \<Rightarrow> Some (rest, go, s))"

text \<open>The matched text and the text of group 1, from the result of \<open>rxMatch\<close> on \<open>s\<close>.\<close>

definition matched :: "string \<Rightarrow> string \<times> string \<times> string \<Rightarrow> string" where
  "matched s r = take (length s - length (fst r)) s"

definition group1 :: "string \<times> string \<times> string \<Rightarrow> string" where
  "group1 r = take (length (fst (snd r)) - length (snd (snd r))) (fst (snd r))"

text \<open>
  \<^verbatim>\<open>str.match(re)\<close> with the \<^verbatim>\<open>g\<close> flag: every match from left to right, the search
  resuming where the last match ended (one further after an empty match). The empty list
  is JavaScript's \<^verbatim>\<open>null\<close>. \<open>skip\<close> counts the characters of the last match still to pass.
\<close>

fun matchAllFrom :: "rx list \<Rightarrow> nat \<Rightarrow> string \<Rightarrow> string list" where
  "matchAllFrom re skip [] =
     (if skip = 0 then (case rxMatch re [] of None \<Rightarrow> [] | Some r \<Rightarrow> [[]]) else [])"
| "matchAllFrom re skip (x # xs) =
     (if 0 < skip then matchAllFrom re (skip - 1) xs
      else (case rxMatch re (x # xs) of
              None \<Rightarrow> matchAllFrom re 0 xs
            | Some r \<Rightarrow> matched (x # xs) r # matchAllFrom re (length (matched (x # xs) r) - 1) xs))"

definition matchAll :: "string \<Rightarrow> rx list \<Rightarrow> string list" where
  "matchAll str re = matchAllFrom re 0 str"

text \<open>
  \<^verbatim>\<open>str.match(re)\<close> without the flag: the leftmost match, as the pair of its text
  (\<^verbatim>\<open>[0]\<close>) and its group (\<^verbatim>\<open>[1]\<close>); \<open>None\<close> is \<^verbatim>\<open>null\<close>.
\<close>

fun matchFirst :: "string \<Rightarrow> rx list \<Rightarrow> (string \<times> string) option" where
  "matchFirst [] re = (case rxMatch re [] of None \<Rightarrow> None | Some r \<Rightarrow> Some ([], group1 r))"
| "matchFirst (x # xs) re =
     (case rxMatch re (x # xs) of
        None \<Rightarrow> matchFirst xs re
      | Some r \<Rightarrow> Some (matched (x # xs) r, group1 r))"

definition lits :: "string \<Rightarrow> rx list" where
  "lits s = map Lit s"

text \<open>The characters \<^verbatim>\<open>\s\<close> matches, among code units below 256.\<close>

definition whitespace :: "char list" where
  "whitespace = [CHR 0x09, CHR 0x0A, CHR 0x0B, CHR 0x0C, CHR 0x0D, CHR 0x20, CHR 0xA0]"

text \<open>The quotes: \<open>0x27\<close> is the apostrophe, \<open>0x22\<close> the double quote, \<open>0x60\<close> the backtick.\<close>

definition quotes2 :: "char list" where
  "quotes2 = [CHR 0x27, CHR 0x22]"

definition quotes3 :: "char list" where
  "quotes3 = [CHR 0x27, CHR 0x22, CHR 0x60]"

text \<open>\<^verbatim>\<open>/\/api\/[^'"?\s&]+/\<close>\<close>

definition reApiPath :: "rx list" where
  "reApiPath = lits ''/api/'' @ [Plus (NoneOf (quotes2 @ ''?'' @ whitespace @ ''&''))]"

text \<open>\<^verbatim>\<open>/['"`][^'"]*\/api\/[^'"?\s&]+[^'"]*['"`]/\<close>\<close>

definition reTemplateApi :: "rx list" where
  "reTemplateApi =
     [Cls (OneOf quotes3), Star (NoneOf quotes2)] @ lits ''/api/'' @
     [Plus (NoneOf (quotes2 @ ''?'' @ whitespace @ ''&'')), Star (NoneOf quotes2),
      Cls (OneOf quotes3)]"

text \<open>\<^verbatim>\<open>/url=["']([^"']+)["']/\<close>, and the same for \<^verbatim>\<open>action=\<close> and \<^verbatim>\<open>href=\<close>.\<close>

definition reAttr :: "string \<Rightarrow> rx list" where
  "reAttr name =
     lits (name @ ''='') @
     [Cls (OneOf quotes2), GroupOpen, Plus (NoneOf quotes2), GroupClose, Cls (OneOf quotes2)]"

text \<open>\<^verbatim>\<open>/fetch\s*\(\s*['"`]([^'"`]+)['"`]\s*\)/\<close>\<close>

definition reFetch :: "rx list" where
  "reFetch =
     lits ''fetch'' @ [Star (OneOf whitespace), Lit CHR ''('', Star (OneOf whitespace),
       Cls (OneOf quotes3), GroupOpen, Plus (NoneOf quotes3), GroupClose, Cls (OneOf quotes3),
       Star (OneOf whitespace), Lit CHR '')'']"

text \<open>\<^verbatim>\<open>/url\s*:\s*['"`]([^'"`]+)['"`]/\<close>\<close>

definition reAjax :: "rx list" where
  "reAjax =
     lits ''url'' @ [Star (OneOf whitespace), Lit CHR '':'', Star (OneOf whitespace),
       Cls (OneOf quotes3), GroupOpen, Plus (NoneOf quotes3), GroupClose, Cls (OneOf quotes3)]"

section \<open>scanForApiUrlPatterns\<close>

text \<open>\<^verbatim>\<open>match.split('?')[0].split('#')[0]\<close>\<close>

definition cleanPath :: "string \<Rightarrow> string" where
  "cleanPath m = splitFirst (splitFirst m CHR ''?'') CHR ''#''"

definition scanForApiUrlPatterns :: "scanner \<Rightarrow> string \<Rightarrow> string \<Rightarrow> scanner" where
  "scanForApiUrlPatterns st str file =
     (let apiMatches = matchAll str reApiPath;
          st1 = foldl (\<lambda>s m. addReference s (cleanPath m) file ''url-string'')
                  st apiMatches;
          templateApiMatches = matchAll str reTemplateApi
      in foldl (\<lambda>s m. case matchFirst m reApiPath of
                         None \<Rightarrow> s
                       | Some apiMatch \<Rightarrow>
                           addReference s (cleanPath (fst apiMatch)) file ''template-url'')
           st1 templateApiMatches)"

section \<open>The project as the scanner reads it\<close>

text \<open>
  A directory entry as \<^verbatim>\<open>fs.stat\<close> and \<^verbatim>\<open>fs.readdir\<close> see it: a regular file, an entry that
  is neither a file nor a directory (a socket, a device), an entry whose \<^verbatim>\<open>stat\<close> fails (a
  dangling link), or a directory with its entries; the flag of a directory tells whether
  \<^verbatim>\<open>readdir\<close> succeeds on it.
\<close>

datatype node = File | Special | Dangling | Dir bool "(string \<times> node) list"

datatype error = IOError string | TypeError

text \<open>
  What the scanner's calls into the file system return: the lists of absolute paths of
  the four \<^verbatim>\<open>glob\<close> calls, \<^verbatim>\<open>fs.readJson\<close> and \<^verbatim>\<open>fs.readFile\<close> (\<open>None\<close> when the call
  throws) and the directory tree below the file system's root.
\<close>

record project =
  globActions :: "string list"
  globHtml :: "string list"
  globJson :: "string list"
  globJs :: "string list"
  readJson :: "string \<Rightarrow> json option"
  readFile :: "string \<Rightarrow> string option"
  dirs :: node

fun foldE :: "('s \<Rightarrow> 'a \<Rightarrow> error + 's) \<Rightarrow> 's \<Rightarrow> 'a list \<Rightarrow> error + 's" where
  "foldE f s [] = Inr s"
| "foldE f s (x # xs) = (case f s x of Inl e \<Rightarrow> Inl e | Inr s' \<Rightarrow> foldE f s' xs)"

section \<open>discoverServerActions\<close>

text \<open>
  \<^verbatim>\<open>content.exec\<close> on parsed JSON other than \<^verbatim>\<open>null\<close>: the entry of an object (its keys are
  distinct), \<^verbatim>\<open>undefined\<close> (here \<open>None\<close>) otherwise. JavaScript's truthiness follows.
\<close>

definition property :: "json \<Rightarrow> string \<Rightarrow> json option" where
  "property c key = (case c of JObj entries \<Rightarrow> map_of entries key | _ \<Rightarrow> None)"

fun truthy :: "json option \<Rightarrow> bool" where
  "truthy None = False"
| "truthy (Some JNull) = False"
| "truthy (Some (JBool b)) = b"
| "truthy (Some (JNum x)) = (x \<noteq> 0)"
| "truthy (Some (JStr s)) = (s \<noteq> [])"
| "truthy (Some (JArr xs)) = True"
| "truthy (Some (JObj es)) = True"

definition warn :: "scanner \<Rightarrow> string \<Rightarrow> scanner" where
  "warn st rel = st\<lparr>warnings := warnings st @ [''Warning: Could not parse '' @ rel]\<rparr>"

text \<open>
  The body of the loop over the files. \<^verbatim>\<open>readJson\<close> throwing and \<^verbatim>\<open>content.exec\<close> throwing
  on \<^verbatim>\<open>null\<close> end in the same handler.
\<close>

definition discoverFile :: "project \<Rightarrow> scanner \<Rightarrow> string \<Rightarrow> scanner" where
  "discoverFile pr st file =
     (let rel = pathRelative (projectRoot st) file;
          url = filePathToUrl rel
      in case readJson pr file of
           None \<Rightarrow> warn st rel
         | Some JNull \<Rightarrow> warn st rel
         | Some c \<Rightarrow>
             if truthy (property c ''exec'') \<or> truthy (property c ''steps'')
             then st\<lparr>serverActions := mapSet (serverActions st) url
                       \<lparr>filePath = file, relativePath = rel, urlPath = url, content = c,
                        references = []\<rparr>\<rparr>
             else st)"

definition discoverServerActions :: "project \<Rightarrow> scanner \<Rightarrow> scanner" where
  "discoverServerActions pr st = foldl (discoverFile pr) st (globActions pr)"

section \<open>findReferences\<close>

text \<open>
  The values \<^verbatim>\<open>findInObject\<close> passes to its callback, in the order of the calls. Below a
  matching key the walk does not descend.
\<close>

fun findInObject :: "json \<Rightarrow> string \<Rightarrow> json list"
  and findInItems :: "json list \<Rightarrow> string \<Rightarrow> json list"
  and findInEntries :: "(string \<times> json) list \<Rightarrow> string \<Rightarrow> json list" where
  "findInObject (JArr items) key = findInItems items key"
| "findInObject (JObj entries) key = findInEntries entries key"
| "findInObject JNull key = []"
| "findInObject (JBool b) key = []"
| "findInObject (JNum x) key = []"
| "findInObject (JStr s) key = []"
| "findInItems [] key = []"
| "findInItems (item # items) key = findInObject item key @ findInItems items key"
| "findInEntries [] key = []"
| "findInEntries ((k, v) # entries) key =
     (if k = key then [v] else findInObject v key) @ findInEntries entries key"

text \<open>
  The loops over the matches of an attribute pattern. \<^verbatim>\<open>match.match(re)[1]\<close> throws a
  \<^verbatim>\<open>TypeError\<close> when the inner match is \<^verbatim>\<open>null\<close>.
\<close>

fun attrRefs :: "string \<Rightarrow> string \<Rightarrow> string \<Rightarrow> scanner \<Rightarrow> string list \<Rightarrow> error + scanner" where
  "attrRefs name ty file st [] = Inr st"
| "attrRefs name ty file st (m # ms) =
     (case matchFirst m (reAttr name) of
        None \<Rightarrow> Inl TypeError
      | Some r \<Rightarrow> attrRefs name ty file (addReference st (snd r) file ty) ms)"

fun hrefRefs :: "string \<Rightarrow> scanner \<Rightarrow> string list \<Rightarrow> error + scanner" where
  "hrefRefs file st [] = Inr st"
| "hrefRefs file st (m # ms) =
     (case matchFirst m (reAttr ''href'') of
        None \<Rightarrow> Inl TypeError
      | Some r \<Rightarrow>
          hrefRefs file
            (if includesStr (snd r) ''/api/'' then scanForApiUrlPatterns st (snd r) file else st)
            ms)"

definition scanHtmlFile :: "project \<Rightarrow> scanner \<Rightarrow> string \<Rightarrow> error + scanner" where
  "scanHtmlFile pr st file =
     (case readFile pr file of
        None \<Rightarrow> Inl (IOError file)
      | Some c \<Rightarrow>
         (case attrRefs ''url'' ''html-url'' file st (matchAll c (reAttr ''url'')) of
            Inl e \<Rightarrow> Inl e
          | Inr st1 \<Rightarrow>
             (case attrRefs ''action'' ''html-action'' file st1 (matchAll c (reAttr ''action'')) of
                Inl e \<Rightarrow> Inl e
              | Inr st2 \<Rightarrow>
                 (case hrefRefs file st2 (matchAll c (reAttr ''href'')) of
                    Inl e \<Rightarrow> Inl e
                  | Inr st3 \<Rightarrow> Inr (scanForApiUrlPatterns st3 c file)))))"

definition scanHtmlFiles :: "project \<Rightarrow> scanner \<Rightarrow> error + scanner" where
  "scanHtmlFiles pr st = foldE (scanHtmlFile pr) st (globHtml pr)"

text \<open>
  The \<^verbatim>\<open>api_file\<close> callback calls \<^verbatim>\<open>addReference\<close> on any value; on a value that is not a
  string \<^verbatim>\<open>referencedPath.startsWith\<close> throws. \<open>Inl\<close> is the scanner at the throw.
\<close>

fun queueApiFileRefs :: "string \<Rightarrow> scanner \<Rightarrow> json list \<Rightarrow> scanner + scanner" where
  "queueApiFileRefs file st [] = Inr st"
| "queueApiFileRefs file st (JStr s # vs) =
     queueApiFileRefs file (addReference st s file ''queue-api-file'') vs"
| "queueApiFileRefs file st (v # vs) = Inl st"

text \<open>The callbacks that act on strings only.\<close>

definition stringRefs :: "string \<Rightarrow> string \<Rightarrow> scanner \<Rightarrow> json list \<Rightarrow> scanner" where
  "stringRefs ty file st vs =
     foldl (\<lambda>s v. case v of JStr x \<Rightarrow> addReference s x file ty | _ \<Rightarrow> s) st vs"

definition stringUrls :: "string \<Rightarrow> scanner \<Rightarrow> json list \<Rightarrow> scanner" where
  "stringUrls file st vs =
     foldl (\<lambda>s v. case v of JStr x \<Rightarrow> scanForApiUrlPatterns s x file | _ \<Rightarrow> s) st vs"

text \<open>
  The body of the loop of \<^verbatim>\<open>scanJsonFiles\<close> with its handler: a file that does not parse is
  passed over, and a throw in the \<^verbatim>\<open>api_file\<close> callback ends the work on the file.
\<close>

definition scanJsonFile :: "project \<Rightarrow> scanner \<Rightarrow> string \<Rightarrow> scanner" where
  "scanJsonFile pr st file =
     (case readJson pr file of
        None \<Rightarrow> st
      | Some c \<Rightarrow>
         (case queueApiFileRefs file st (findInObject c ''api_file'') of
            Inl st' \<Rightarrow> st'
          | Inr st1 \<Rightarrow>
             (let st2 = stringRefs ''exec-string'' file st1 (findInObject c ''exec'');
                  st3 = stringRefs ''exec-module'' file st2 (findInObject c ''module'');
                  st4 = stringUrls file st3 (findInObject c ''value'');
                  st5 = stringUrls file st4 (findInObject c ''url'')
              in stringUrls file st5 (findInObject c ''link''))))"

definition scanJsonFiles :: "project \<Rightarrow> scanner \<Rightarrow> scanner" where
  "scanJsonFiles pr st = foldl (scanJsonFile pr) st (globJson pr)"

fun callRefs :: "rx list \<Rightarrow> string \<Rightarrow> string \<Rightarrow> scanner \<Rightarrow> string list \<Rightarrow> error + scanner" where
  "callRefs re ty file st [] = Inr st"
| "callRefs re ty file st (m # ms) =
     (case matchFirst m re of
        None \<Rightarrow> Inl TypeError
      | Some r \<Rightarrow>
          callRefs re ty file
            (if startsWith (snd r) ''/api/'' then addReference st (snd r) file ty else st) ms)"

definition scanJavaScriptFile :: "project \<Rightarrow> scanner \<Rightarrow> string \<Rightarrow> error + scanner" where
  "scanJavaScriptFile pr st file =
     (case readFile pr file of
        None \<Rightarrow> Inl (IOError file)
      | Some c \<Rightarrow>
         (case callRefs reFetch ''js-fetch'' file st (matchAll c reFetch) of
            Inl e \<Rightarrow> Inl e
          | Inr st1 \<Rightarrow> callRefs reAjax ''js-ajax'' file st1 (matchAll c reAjax)))"

definition scanJavaScriptFiles :: "project \<Rightarrow> scanner \<Rightarrow> error + scanner" where
  "scanJavaScriptFiles pr st = foldE (scanJavaScriptFile pr) st (globJs pr)"

definition findReferences :: "project \<Rightarrow> scanner \<Rightarrow> error + scanner" where
  "findReferences pr st =
     (case scanHtmlFiles pr st of
        Inl e \<Rightarrow> Inl e
      | Inr st1 \<Rightarrow> scanJavaScriptFiles pr (scanJsonFiles pr st1))"

section \<open>Empty folders\<close>

text \<open>
  A path is resolved from the root of the tree along its components; the paths of the
  tool are normalized, so no component is \<^verbatim>\<open>.\<close> or \<^verbatim>\<open>..\<close>.
\<close>

definition components :: "string \<Rightarrow> string list" where
  "components p = filter (\<lambda>c. c \<noteq> []) (split p CHR ''/'')"

fun walk :: "node \<Rightarrow> string list \<Rightarrow> node option" where
  "walk n [] = Some n"
| "walk (Dir l es) (c # cs) = (case map_of es c of None \<Rightarrow> None | Some m \<Rightarrow> walk m cs)"
| "walk n (c # cs) = None"

definition lookupPath :: "node \<Rightarrow> string \<Rightarrow> node option" where
  "lookupPath fs p = walk fs (components p)"

text \<open>\<^verbatim>\<open>fs.pathExists\<close> follows links: a dangling link does not exist.\<close>

definition pathExists :: "node \<Rightarrow> string \<Rightarrow> bool" where
  "pathExists fs p = (case lookupPath fs p of None \<Rightarrow> False | Some Dangling \<Rightarrow> False | Some n \<Rightarrow> True)"

text \<open>
  \<^verbatim>\<open>hasNonEmptyContent(dir, items)\<close>, on the entries of \<open>dir\<close>; \<open>Inl\<close> when \<^verbatim>\<open>stat\<close> or
  \<^verbatim>\<open>readdir\<close> throws.
\<close>

fun hasNonEmptyContent :: "(string \<times> node) list \<Rightarrow> error + bool" where
  "hasNonEmptyContent [] = Inr False"
| "hasNonEmptyContent ((item, File) # rest) = Inr True"
| "hasNonEmptyContent ((item, Special) # rest) = hasNonEmptyContent rest"
| "hasNonEmptyContent ((item, Dangling) # rest) = Inl (IOError item)"
| "hasNonEmptyContent ((item, Dir l subItems) # rest) =
     (if \<not> l then Inl (IOError item)
      else (case hasNonEmptyContent subItems of
              Inl e \<Rightarrow> Inl e
            | Inr True \<Rightarrow> Inr True
            | Inr False \<Rightarrow> hasNonEmptyContent rest))"

text \<open>
  \<^verbatim>\<open>findEmptyFoldersInDirectory(dir)\<close>, on the node at \<open>dir\<close>. \<open>checkSubdirectories\<close> is its
  loop over the items: the folders found, and whether the loop ran to its end (\<^verbatim>\<open>stat\<close>
  throws on a dangling link). Whatever was pushed before a throw is returned.
\<close>

fun findEmptyFoldersInDirectory :: "string \<Rightarrow> node \<Rightarrow> string list"
  and checkSubdirectories :: "string \<Rightarrow> (string \<times> node) list \<Rightarrow> string list \<times> bool" where
  "findEmptyFoldersInDirectory dir (Dir l items) =
     (if \<not> l then []
      else if items = [] then [dir]
      else (case checkSubdirectories dir items of
              (found, False) \<Rightarrow> found
            | (found, True) \<Rightarrow>
                (case hasNonEmptyContent items of
                   Inl e \<Rightarrow> found
                 | Inr hasFiles \<Rightarrow> if \<not> hasFiles then found @ [dir] else found)))"
| "findEmptyFoldersInDirectory dir File = []"
| "findEmptyFoldersInDirectory dir Special = []"
| "findEmptyFoldersInDirectory dir Dangling = []"
| "checkSubdirectories dir [] = ([], True)"
| "checkSubdirectories dir ((item, File) # rest) = checkSubdirectories dir rest"
| "checkSubdirectories dir ((item, Special) # rest) = checkSubdirectories dir rest"
| "checkSubdirectories dir ((item, Dangling) # rest) = ([], False)"
| "checkSubdirectories dir ((item, Dir l es) # rest) =
     (let subEmpty = findEmptyFoldersInDirectory (pathJoin dir item) (Dir l es);
          r = checkSubdirectories dir rest
      in (subEmpty @ fst r, snd r))"

definition findEmptyFolders :: "node \<Rightarrow> string \<Rightarrow> emptyFolder list" where
  "findEmptyFolders fs base =
     map (\<lambda>folder. \<lparr>ef_path = folder, ef_relativePath = pathRelative base folder\<rparr>)
       (concat (map (\<lambda>searchDir.
                  if pathExists fs searchDir
                  then (case lookupPath fs searchDir of
                          None \<Rightarrow> []
                        | Some n \<Rightarrow> findEmptyFoldersInDirectory searchDir n)
                  else [])
          [pathJoin base ''app/api'', pathJoin base ''app/lib'']))"

text \<open>
  \<^verbatim>\<open>isDirectoryEmpty(dir)\<close>, on the node at \<open>dir\<close>; every throw ends in \<^verbatim>\<open>return false\<close>.
\<close>

fun isDirectoryEmptyNode :: "node \<Rightarrow> bool"
  and allItemsEmpty :: "(string \<times> node) list \<Rightarrow> bool" where
  "isDirectoryEmptyNode (Dir l items) =
     (if \<not> l then False else if items = [] then True else allItemsEmpty items)"
| "isDirectoryEmptyNode File = False"
| "isDirectoryEmptyNode Special = False"
| "isDirectoryEmptyNode Dangling = False"
| "allItemsEmpty [] = True"
| "allItemsEmpty ((item, File) # rest) = False"
| "allItemsEmpty ((item, Special) # rest) = allItemsEmpty rest"
| "allItemsEmpty ((item, Dangling) # rest) = False"
| "allItemsEmpty ((item, Dir l es) # rest) =
     (if \<not> isDirectoryEmptyNode (Dir l es) then False else allItemsEmpty rest)"

definition isDirectoryEmpty :: "node \<Rightarrow> string \<Rightarrow> bool" where
  "isDirectoryEmpty fs dir =
     (case lookupPath fs dir of None \<Rightarrow> False | Some n \<Rightarrow> isDirectoryEmptyNode n)"

text \<open>The tree after \<^verbatim>\<open>fs.remove(path)\<close> has succeeded: the entry and all below it are gone.\<close>

fun removeEntry :: "node \<Rightarrow> string list \<Rightarrow> node" where
  "removeEntry (Dir l es) [c] = Dir l (filter (\<lambda>e. fst e \<noteq> c) es)"
| "removeEntry (Dir l es) (c # c' # cs) =
     Dir l (map (\<lambda>e. if fst e = c then (fst e, removeEntry (snd e) (c' # cs)) else e) es)"
| "removeEntry n cs = n"

record deleteError =
  de_path :: string
  de_error :: string

record deleteResults =
  deleted :: "string list"
  errors :: "deleteError list"

text \<open>\<^verbatim>\<open>a.split(path.sep).length\<close> with the POSIX separator.\<close>

definition depth :: "string \<Rightarrow> nat" where
  "depth p = length (split p CHR ''/'')"

text \<open>
  The comparator is \<^verbatim>\<open>depthB - depthA\<close>: the stable sort by falling depth.
\<close>

definition sortedPaths :: "string list \<Rightarrow> string list" where
  "sortedPaths folderPaths = sort_key (\<lambda>p. - int (depth p)) folderPaths"

text \<open>
  The body of the loop of \<^verbatim>\<open>deleteEmptyFolders\<close>. \<open>rmError\<close> tells when \<^verbatim>\<open>fs.remove\<close>
  throws: for the tree as it is and the path, the message of the error and the tree
  that the failed removal leaves behind.
\<close>

type_synonym removal = "node \<Rightarrow> string \<Rightarrow> (string \<times> node) option"

definition deleteFolder :: "removal \<Rightarrow> node \<times> deleteResults \<Rightarrow> string \<Rightarrow> node \<times> deleteResults" where
  "deleteFolder rmError s folderPath =
     (if isDirectoryEmpty (fst s) folderPath
      then (case rmError (fst s) folderPath of
              None \<Rightarrow> (removeEntry (fst s) (components folderPath),
                        (snd s)\<lparr>deleted := deleted (snd s) @ [folderPath]\<rparr>)
            | Some failure \<Rightarrow>
                (snd failure, (snd s)\<lparr>errors := errors (snd s) @
                                 [\<lparr>de_path = folderPath, de_error = fst failure\<rparr>]\<rparr>))
      else s)"

definition deleteLoop :: "removal \<Rightarrow> node \<Rightarrow> string list \<Rightarrow> node \<times> deleteResults" where
  "deleteLoop rmError fs ps = foldl (deleteFolder rmError) (fs, \<lparr>deleted = [], errors = []\<rparr>) ps"

definition deleteEmptyFolders :: "removal \<Rightarrow> node \<Rightarrow> string list \<Rightarrow> node \<times> deleteResults" where
  "deleteEmptyFolders rmError fs folderPaths = deleteLoop rmError fs (sortedPaths folderPaths)"

section \<open>scan\<close>

text \<open>
  \<open>Inl\<close> is the error \<^verbatim>\<open>scan\<close> rethrows; \<open>Inr\<close> carries the scanner after the scan and the
  results returned.
\<close>

definition scan :: "project \<Rightarrow> scanner \<Rightarrow> error + scanner \<times> results" where
  "scan pr st =
     (case findReferences pr (discoverServerActions pr st) of
        Inl e \<Rightarrow> Inl e
      | Inr st2 \<Rightarrow>
          Inr (st2, (analyzeResults st2)\<lparr>res_emptyFolders :=
                       findEmptyFolders (dirs pr) (projectRoot st2)\<rparr>))"

section \<open>Specification-side notions and sample data\<close>

text \<open>The scanner object as the constructor leaves it.\<close>

definition newScanner :: "string \<Rightarrow> scanner" where
  "newScanner r = \<lparr>projectRoot = r, serverActions = [], refLookup = [], warnings = []\<rparr>"

text \<open>
  The classification as a function of the length of the reference list alone: the pair of
  the confidence and the status.
\<close>

definition classify :: "nat \<Rightarrow> string \<times> string" where
  "classify n = (if n = 0 then (''safe-to-delete'', ''unused'') else (''review-needed'', ''used''))"

text \<open>The generic string of the magic-link example.\<close>

definition magicLink :: string where
  "magicLink = ''...click here: '/api/v1/security/magic-login?token='+tok...''"

text \<open>A scanner with two declared actions, the first referenced once, the second never.\<close>

definition demoRef :: reference where
  "demoRef = \<lparr>sourceFile = ''views/index.ejs'', type = ''html-url'', originalReference = ''/api/b''\<rparr>"

definition demoScanner :: scanner where
  "demoScanner =
     \<lparr>projectRoot = ''/proj'',
      serverActions =
        [(''/api/b'', \<lparr>filePath = ''/proj/app/api/b.json'', relativePath = ''app/api/b.json'',
                      urlPath = ''/api/b'', content = JObj [(''steps'', JArr [])],
                      references = [demoRef]\<rparr>),
         (''/api/a'', \<lparr>filePath = ''/proj/app/api/a.json'', relativePath = ''app/api/a.json'',
                      urlPath = ''/api/a'', content = JObj [(''steps'', JArr [])],
                      references = []\<rparr>)],
      refLookup = [(''/api/b'', [demoRef])], warnings = []\<rparr>"

text \<open>
  A tree is accessible when every directory in it can be listed and \<^verbatim>\<open>stat\<close> succeeds on
  every entry.
\<close>

fun accessible :: "node \<Rightarrow> bool"
  and accessibleItems :: "(string \<times> node) list \<Rightarrow> bool" where
  "accessible File = True"
| "accessible Special = True"
| "accessible Dangling = False"
| "accessible (Dir l es) = (l \<and> accessibleItems es)"
| "accessibleItems [] = True"
| "accessibleItems ((item, n) # rest) = (accessible n \<and> accessibleItems rest)"

text \<open>
  A node transitively contains no files when no regular file lies in it or below it.
  \<open>directories dir n\<close> lists the directories of the tree \<open>n\<close> at the path \<open>dir\<close>, each with
  its path, children before parents.
\<close>

fun containsNoFiles :: "node \<Rightarrow> bool"
  and noFilesIn :: "(string \<times> node) list \<Rightarrow> bool" where
  "containsNoFiles File = False"
| "containsNoFiles Special = True"
| "containsNoFiles Dangling = True"
| "containsNoFiles (Dir l es) = noFilesIn es"
| "noFilesIn [] = True"
| "noFilesIn ((item, n) # rest) = (containsNoFiles n \<and> noFilesIn rest)"

fun directories :: "string \<Rightarrow> node \<Rightarrow> (string \<times> node) list"
  and directoriesIn :: "string \<Rightarrow> (string \<times> node) list \<Rightarrow> (string \<times> node) list" where
  "directories dir (Dir l es) = directoriesIn dir es @ [(dir, Dir l es)]"
| "directories dir File = []"
| "directories dir Special = []"
| "directories dir Dangling = []"
| "directoriesIn dir [] = []"
| "directoriesIn dir ((item, n) # rest) = directories (pathJoin dir item) n @ directoriesIn dir rest"

definition emptyDirectories :: "string \<Rightarrow> node \<Rightarrow> string list" where
  "emptyDirectories dir n = map fst (filter (\<lambda>d. containsNoFiles (snd d)) (directories dir n))"

definition emptyDirectoriesIn :: "string \<Rightarrow> (string \<times> node) list \<Rightarrow> string list" where
  "emptyDirectoriesIn dir es = map fst (filter (\<lambda>d. containsNoFiles (snd d)) (directoriesIn dir es))"

definition emptyBelow :: "node \<Rightarrow> string \<Rightarrow> string list" where
  "emptyBelow fs d = (case lookupPath fs d of None \<Rightarrow> [] | Some n \<Rightarrow> emptyDirectories d n)"

definition accessibleAt :: "node \<Rightarrow> string \<Rightarrow> bool" where
  "accessibleAt fs d = (case lookupPath fs d of None \<Rightarrow> True | Some n \<Rightarrow> accessible n)"

text \<open>
  The directory tree of a project whose directory \<open>app/api/v1\<close> holds two empty folders,
  and one whose only folder below \<open>app/api\<close> cannot be listed.
\<close>

definition demoTree :: node where
  "demoTree =
     Dir True [(''proj'', Dir True
       [(''app'', Dir True
          [(''api'', Dir True
              [(''a.json'', File), (''broken.json'', File), (''old.json'', File),
               (''v1'', Dir True [(''a'', Dir True []), (''b'', Dir True [])])]),
           (''config'', Dir True [(''routes.json'', File)]),
           (''lib'', Dir True [(''check.json'', File)])]),
        (''public'', Dir True [(''js'', Dir True [(''main.js'', File)])]),
        (''views'', Dir True [(''index.ejs'', File)])])]"

definition lockedTree :: node where
  "lockedTree =
     Dir True [(''proj'', Dir True [(''app'', Dir True
       [(''api'', Dir True [(''cache'', Dir False [])])])])]"

text \<open>A batch for \<open>deleteEmptyFolders\<close> on the first project; one removal fails.\<close>

definition demoRmError :: removal where
  "demoRmError fs p = (if p = ''/proj/app/api/v1/b'' then Some (''EPERM'', fs) else None)"

definition demoPaths :: "string list" where
  "demoPaths = [''/proj/app/lib'', ''/proj/app/api/v1'', ''/proj/app/api/v1/a'', ''/proj/app/api/v1/b'', ''/proj/app/api'']"

section \<open>Notions for the properties of the scan\<close>

text \<open>
  Relations between two scanners that every call of \<open>addReference\<close> with the same arguments
  preserves; the walk over the reference sources preserves each of them.
\<close>

definition preserved :: "(scanner \<Rightarrow> scanner \<Rightarrow> bool) \<Rightarrow> bool" where
  "preserved R = (\<forall>a b p f t. R a b \<longrightarrow> R (addReference a p f t) (addReference b p f t))"


text \<open>The same but for the warnings written.\<close>

definition sameButWarnings :: "scanner \<Rightarrow> scanner \<Rightarrow> bool" where
  "sameButWarnings a b =
     (projectRoot a = projectRoot b \<and> serverActions a = serverActions b \<and> refLookup a = refLookup b)"

text \<open>The second scanner has the given project root, keys of the index and warnings.\<close>

definition keeping :: "string \<times> string list \<times> string list \<Rightarrow> scanner \<Rightarrow> scanner \<Rightarrow> bool" where
  "keeping c a b = ((projectRoot b, map fst (serverActions b), warnings b) = c)"

text \<open>
  The entry \<open>discoverFile\<close> sets in the index for a file, if any: its key and the action
  with no references yet.
\<close>

definition declaredBy :: "project \<Rightarrow> string \<Rightarrow> string \<Rightarrow> (string \<times> action) option" where
  "declaredBy pr base file =
     (let rel = pathRelative base file; url = filePathToUrl rel
      in case readJson pr file of
           None \<Rightarrow> None
         | Some c \<Rightarrow>
             if c \<noteq> JNull \<and> (truthy (property c ''exec'') \<or> truthy (property c ''steps''))
             then Some (url, \<lparr>filePath = file, relativePath = rel, urlPath = url, content = c,
                              references = []\<rparr>)
             else None)"


text \<open>The project without a file below the action and library trees.\<close>

definition withoutFile :: "project \<Rightarrow> string \<Rightarrow> project" where
  "withoutFile pr f =
     pr\<lparr>globActions := removeAll f (globActions pr), globJson := removeAll f (globJson pr)\<rparr>"

text \<open>
  A project on the tree \<open>demoTree\<close>: three declared actions, one file that does not parse,
  a page and a script that refer to \<open>/api/a\<close>, and \<open>a.json\<close> running the library action.
\<close>

definition demoProject :: project where
  "demoProject =
     \<lparr>globActions = [''/proj/app/api/a.json'', ''/proj/app/api/broken.json'',
                     ''/proj/app/api/old.json'', ''/proj/app/lib/check.json''],
      globHtml = [''/proj/views/index.ejs''],
      globJson = [''/proj/app/api/a.json'', ''/proj/app/api/broken.json'',
                  ''/proj/app/api/old.json'', ''/proj/app/config/routes.json'',
                  ''/proj/app/lib/check.json''],
      globJs = [''/proj/public/js/main.js''],
      readJson = (\<lambda>f.
        if f = ''/proj/app/api/a.json''
          then Some (JObj [(''steps'', JArr [JObj [(''exec'', JStr ''check'')]])])
        else if f = ''/proj/app/api/old.json'' then Some (JObj [(''steps'', JArr [])])
        else if f = ''/proj/app/lib/check.json'' then Some (JObj [(''exec'', JObj [])])
        else if f = ''/proj/app/config/routes.json'' then Some (JObj [(''routes'', JArr [])])
        else None),
      readFile = (\<lambda>f.
        if f = ''/proj/views/index.ejs'' then Some ''<form action='/api/a'>''
        else if f = ''/proj/public/js/main.js'' then Some ''fetch('/api/a')''
        else None),
      dirs = demoTree\<rparr>"










section \<open>Properties of analyzeResults\<close>

lemma analyzeAction_actions:
  "res_actions (analyzeAction r ka) = res_actions r @ [resultOf ka]"
  by (simp add: analyzeAction_def resultOf_def Let_def)

lemma foldl_analyzeAction_actions:
  "res_actions (foldl analyzeAction r m) = res_actions r @ map resultOf m"
  by (induction m arbitrary: r) (simp_all add: analyzeAction_actions)

lemma analyzeAction_summary:
  "res_summary (analyzeAction r ka) =
     (if references (snd ka) = []
      then (res_summary r)\<lparr>likelyUnused := likelyUnused (res_summary r) + 1\<rparr>
      else (res_summary r)\<lparr>used := used (res_summary r) + 1\<rparr>)"
  by (simp add: analyzeAction_def Let_def)

lemma foldl_analyzeAction_summary:
  "res_summary (foldl analyzeAction r m) =
     (res_summary r)
       \<lparr>used := used (res_summary r) + length (filter (\<lambda>ka. references (snd ka) \<noteq> []) m),
        likelyUnused := likelyUnused (res_summary r)
                          + length (filter (\<lambda>ka. references (snd ka) = []) m)\<rparr>"
  by (induction m arbitrary: r) (simp_all add: analyzeAction_summary)

lemma analyzeResults_actions:
  "res_actions (analyzeResults st) =
     sort_key (\<lambda>a. confidenceOrder (res_confidence a)) (map resultOf (serverActions st))"
  by (simp add: analyzeResults_def Let_def foldl_analyzeAction_actions)

lemma analyzeResults_summary:
  "res_summary (analyzeResults st) =
     \<lparr>totalActions = length (serverActions st),
      used = length (filter (\<lambda>ka. references (snd ka) \<noteq> []) (serverActions st)),
      possiblyUnused = 0,
      likelyUnused = length (filter (\<lambda>ka. references (snd ka) = []) (serverActions st))\<rparr>"
  by (simp add: analyzeResults_def Let_def foldl_analyzeAction_summary)

lemma resultOf_classified:
  "res_referenceCount (resultOf ka) = length (references (snd ka)) \<and>
   res_references (resultOf ka) = references (snd ka) \<and>
   res_urlPath (resultOf ka) = fst ka \<and>
   (res_confidence (resultOf ka), res_status (resultOf ka)) = classify (length (references (snd ka)))"
  by (simp add: resultOf_def classify_def)

lemma set_analyzeResults_actions:
  "set (res_actions (analyzeResults st)) = resultOf ` set (serverActions st)"
  by (simp add: analyzeResults_actions)

text \<open>
  C1. Every declared action has an entry in the result, every entry of the result comes
  from a declared action, and the confidence and status of an entry are \<open>classify\<close> of the
  length of its reference list: \<open>safe-to-delete\<close> and \<open>unused\<close> for no reference,
  \<open>review-needed\<close> and \<open>used\<close> for one or more. The actions of a scan result are those of
  \<open>analyzeResults\<close> on the scanner after the scan.
\<close>

theorem analyzeResults_classification:
  "(\<forall>ka \<in> set (serverActions st). \<exists>ra \<in> set (res_actions (analyzeResults st)).
      res_urlPath ra = fst ka \<and> res_references ra = references (snd ka) \<and>
      (res_confidence ra, res_status ra) = classify (length (references (snd ka)))) \<and>
   (\<forall>ra \<in> set (res_actions (analyzeResults st)).
      res_referenceCount ra = length (res_references ra) \<and>
      (res_confidence ra, res_status ra) = classify (length (res_references ra)) \<and>
      (\<exists>ka \<in> set (serverActions st).
         res_urlPath ra = fst ka \<and> res_references ra = references (snd ka))) \<and>
   length (res_actions (analyzeResults st)) = length (serverActions st) \<and>
   (\<forall>pr st0 r. scan pr st0 = Inr (st, r) \<longrightarrow> res_actions r = res_actions (analyzeResults st))"
proof -
  have declared: "\<exists>ra \<in> set (res_actions (analyzeResults st)).
      res_urlPath ra = fst ka \<and> res_references ra = references (snd ka) \<and>
      (res_confidence ra, res_status ra) = classify (length (references (snd ka)))"
    if "ka \<in> set (serverActions st)" for ka
  proof -
    from that have "resultOf ka \<in> set (res_actions (analyzeResults st))"
      by (simp add: set_analyzeResults_actions)
    then show ?thesis
      using resultOf_classified [of ka] by blast
  qed
  have produced: "res_referenceCount ra = length (res_references ra) \<and>
      (res_confidence ra, res_status ra) = classify (length (res_references ra)) \<and>
      (\<exists>ka \<in> set (serverActions st).
         res_urlPath ra = fst ka \<and> res_references ra = references (snd ka))"
    if "ra \<in> set (res_actions (analyzeResults st))" for ra
  proof -
    from that obtain ka where ka: "ka \<in> set (serverActions st)" "ra = resultOf ka"
      by (auto simp: set_analyzeResults_actions)
    show ?thesis
      using ka resultOf_classified [of ka] by auto
  qed
  have len: "length (res_actions (analyzeResults st)) = length (serverActions st)"
    by (simp add: analyzeResults_actions)
  have scanned: "\<forall>pr st0 r. scan pr st0 = Inr (st, r) \<longrightarrow>
      res_actions r = res_actions (analyzeResults st)"
    by (auto simp: scan_def split: sum.splits)
  from declared produced len scanned show ?thesis
    by blast
qed

theorem analyzeResults_classification_witness:
  "map (\<lambda>ra. (res_urlPath ra, res_confidence ra, res_status ra, res_referenceCount ra))
     (res_actions (analyzeResults demoScanner)) =
   [(''/api/a'', ''safe-to-delete'', ''unused'', 0), (''/api/b'', ''review-needed'', ''used'', 1)]"
proof -
  have len: "length (res_actions (analyzeResults demoScanner)) = 2"
    using analyzeResults_classification [of demoScanner] by (simp add: demoScanner_def)
  show ?thesis
    using len by (simp add: analyzeResults_actions demoScanner_def resultOf_def confidenceOrder_def)
qed

section \<open>Properties of normalization and extraction\<close>

lemma magicLink_apiMatches:
  "matchAll magicLink reApiPath = [''/api/v1/security/magic-login'']"
  by code_simp

lemma magicLink_templateMatches:
  "matchAll magicLink reTemplateApi =
     [CHR 0x27 # ''/api/v1/security/magic-login?token='' @ [CHR 0x27]]"
  by code_simp

lemma magicLink_template_apiMatch:
  "matchFirst (CHR 0x27 # ''/api/v1/security/magic-login?token='' @ [CHR 0x27]) reApiPath =
     Some (''/api/v1/security/magic-login'', [])"
  by code_simp

lemma cleanPath_magicLogin:
  "cleanPath ''/api/v1/security/magic-login'' = ''/api/v1/security/magic-login''"
  by code_simp

lemma scanForApiUrlPatterns_magicLink_calls:
  "scanForApiUrlPatterns st magicLink f =
     addReference (addReference st ''/api/v1/security/magic-login'' f ''url-string'')
       ''/api/v1/security/magic-login'' f ''template-url''"
  unfolding scanForApiUrlPatterns_def magicLink_apiMatches magicLink_templateMatches Let_def
  by (simp only: foldl.simps magicLink_template_apiMatch cleanPath_magicLogin option.case fst_conv)

lemma normalizePath_magicLogin:
  "normalizePath ''/api/v1/security/magic-login'' = ''/api/v1/security/magic-login''"
  by code_simp

lemma magicLink_lookup:
  "refLookup (scanForApiUrlPatterns (newScanner ''/proj'') magicLink ''/proj/views/mail.ejs'') =
     [(''/api/v1/security/magic-login'',
       [\<lparr>sourceFile = ''views/mail.ejs'', type = ''url-string'',
          originalReference = ''/api/v1/security/magic-login''\<rparr>,
        \<lparr>sourceFile = ''views/mail.ejs'', type = ''template-url'',
          originalReference = ''/api/v1/security/magic-login''\<rparr>])]"
  unfolding scanForApiUrlPatterns_magicLink_calls
  by (simp add: addReference_def normalizePath_magicLogin newScanner_def mapHas_def
      pathRelative_def startsWith_def Let_def)

text \<open>
  C3. On the magic-link string the scan makes exactly two calls of \<open>addReference\<close>, both
  with the raw path \<open>/api/v1/security/magic-login\<close> (the query is cut off): the first of
  provenance \<open>url-string\<close>, from the pattern for direct paths, the second of provenance
  \<open>template-url\<close>, from the pattern for quoted template strings. The path normalizes to
  itself.
\<close>

theorem scanForApiUrlPatterns_magicLink:
  "scanForApiUrlPatterns st magicLink f =
     addReference (addReference st ''/api/v1/security/magic-login'' f ''url-string'')
       ''/api/v1/security/magic-login'' f ''template-url'' \<and>
   normalizePath ''/api/v1/security/magic-login'' = ''/api/v1/security/magic-login''"
  by (simp only: scanForApiUrlPatterns_magicLink_calls normalizePath_magicLogin)

theorem scanForApiUrlPatterns_magicLink_witness:
  "map type (concat (map snd (refLookup
     (scanForApiUrlPatterns (newScanner ''/proj'') magicLink ''/proj/views/mail.ejs'')))) =
   [''url-string'', ''template-url'']"
proof -
  have "scanForApiUrlPatterns (newScanner ''/proj'') magicLink ''/proj/views/mail.ejs'' =
     addReference (addReference (newScanner ''/proj'') ''/api/v1/security/magic-login''
       ''/proj/views/mail.ejs'' ''url-string'')
       ''/api/v1/security/magic-login'' ''/proj/views/mail.ejs'' ''template-url''"
    using scanForApiUrlPatterns_magicLink [of "newScanner ''/proj''" "''/proj/views/mail.ejs''"]
    by (rule conjunct1)
  then show ?thesis
    by (simp add: addReference_def normalizePath_magicLogin newScanner_def mapHas_def
      pathRelative_def startsWith_def Let_def)
qed

text \<open>
  C3 as stated, exactly one extracted reference and that one of provenance
  \<open>template-url\<close>, fails: the lookup holds two references after the scan.
\<close>

theorem scanForApiUrlPatterns_magicLink_counterexample:
  "\<not> (\<exists>r. concat (map snd (refLookup
          (scanForApiUrlPatterns (newScanner ''/proj'') magicLink ''/proj/views/mail.ejs''))) = [r] \<and>
        type r = ''template-url'')"
  by (simp add: magicLink_lookup)

lemma map_of_mapSet: "map_of (mapSet m k v) = (map_of m)(k \<mapsto> v)"
  by (induction m) (auto simp: fun_eq_iff)

lemma map_of_pushLookup:
  "map_of (pushLookup m k r) = (case map_of m k of None \<Rightarrow> map_of m | Some rs \<Rightarrow> (map_of m)(k \<mapsto> rs @ [r]))"
  by (induction m) (auto simp: fun_eq_iff split: option.splits)

text \<open>
  C4. \<open>addReference\<close> has no no-op outcome: for every string, the empty string and a pure
  fragment included, a reference is appended in the auxiliary lookup under the normalized
  path; the reference lists of the actions stay as they are when the normalized path is
  not a key of the index.
\<close>

theorem addReference_always_records:
  "mapGet (refLookup (addReference st p f ty)) (normalizePath p) =
     Some ((case mapGet (refLookup st) (normalizePath p) of None \<Rightarrow> [] | Some rs \<Rightarrow> rs) @
           [\<lparr>sourceFile = pathRelative (projectRoot st) f, type = ty, originalReference = p\<rparr>]) \<and>
   (\<not> mapHas (serverActions st) (normalizePath p) \<longrightarrow>
      serverActions (addReference st p f ty) = serverActions st)"
  by (auto simp: addReference_def mapGet_def mapHas_def Let_def map_of_pushLookup map_of_mapSet
      split: option.splits)

lemma normalizePath_empty: "normalizePath [] = ''lib/''"
  by code_simp

lemma normalizePath_fragment: "normalizePath ''#top'' = ''lib/#top''"
  by code_simp

theorem addReference_always_records_witness:
  "mapGet (refLookup (addReference (newScanner ''/proj'') [] ''/proj/app/api/a.json'' ''exec-string''))
     ''lib/'' =
     Some [\<lparr>sourceFile = ''app/api/a.json'', type = ''exec-string'', originalReference = []\<rparr>] \<and>
   \<not> mapHas (serverActions (newScanner ''/proj'')) ''lib/'' \<and>
   serverActions (addReference (newScanner ''/proj'') [] ''/proj/app/api/a.json'' ''exec-string'') = []"
  using addReference_always_records [of "newScanner ''/proj''" "[]" "''/proj/app/api/a.json''" "''exec-string''"]
  by (simp add: normalizePath_empty newScanner_def mapHas_def mapGet_def pathRelative_def startsWith_def)

text \<open>
  C4 as stated fails: the empty string and the fragment \<open>#top\<close> are each recorded in the
  auxiliary lookup.
\<close>

theorem addReference_noop_counterexample:
  "\<not> (refLookup (addReference (newScanner ''/proj'') [] ''/proj/app/api/a.json'' ''exec-string'') =
        refLookup (newScanner ''/proj'')) \<and>
   \<not> (refLookup (addReference (newScanner ''/proj'') ''#top'' ''/proj/views/index.ejs'' ''html-url'') =
        refLookup (newScanner ''/proj''))"
  by (simp add: addReference_def normalizePath_empty normalizePath_fragment newScanner_def mapHas_def Let_def)

text \<open>
  C2. The extension rule removes the first occurrence of \<open>.json\<close>, not the trailing one: on
  \<open>/api/a.json/b.json\<close> the normalized path still ends in \<open>.json\<close>.
\<close>

theorem normalizePath_first_json_only:
  "normalizePath ''/api/a.json/b.json'' = ''/api/a/b.json''"
  by code_simp

text \<open>The two examples of C2: each reference normalizes to the key of its declaration.\<close>

lemma normalizePath_examples:
  "normalizePath ''/app/api/v1/queues/sync.json'' = ''/api/v1/queues/sync''"
  "filePathToUrl ''app/api/v1/queues/sync.json'' = ''/api/v1/queues/sync''"
  "normalizePath ''security/check'' = ''lib/security/check''"
  "filePathToUrl ''app/lib/security/check.json'' = ''lib/security/check''"
  by code_simp+

lemma replace_prefix: "startsWith p pat \<Longrightarrow> pat \<noteq> [] \<Longrightarrow> replace p pat rep = rep @ drop (length pat) p"
  by (cases p) (auto simp: startsWith_def)

text \<open>
  The prefix rules apply in order, the first that matches winning, and the extension
  rule follows.
\<close>

lemma normalizePath_rules:
  "normalizePath p =
     (let q = (if startsWith p ''/api/'' then p
               else if startsWith p ''/app/api/'' then ''/api/'' @ drop (length ''/app/api/'') p
               else if \<not> startsWith p ''/'' \<and> \<not> startsWith p ''lib/'' then ''lib/'' @ p
               else p)
      in if endsWith q ''.json'' then replace q ''.json'' [] else q)"
  by (simp add: normalizePath_def replace_prefix Let_def del: replace.simps)

text \<open>
  When the pattern occurs at the end of the string and nowhere before, \<open>replace\<close> strips
  it from the end.
\<close>

lemma replace_trailing:
  assumes "pat \<noteq> []" "endsWith s pat" "\<not> includesStr (butlast s) pat"
  shows "replace s pat [] = take (length s - length pat) s"
  using assms(2,3)
proof (induction s)
  case Nil
  with assms(1) show ?case by (simp add: endsWith_def)
next
  case (Cons c cs)
  show ?case
  proof (cases "startsWith (c # cs) pat")
    case True
    have "length (c # cs) = length pat"
    proof (rule ccontr)
      assume "length (c # cs) \<noteq> length pat"
      with Cons.prems(1) have "length pat < length (c # cs)" by (simp add: endsWith_def)
      then have "take (length pat) (butlast (c # cs)) = take (length pat) (c # cs)"
        by (simp add: butlast_conv_take)
      with True have "startsWith (butlast (c # cs)) pat" by (simp add: startsWith_def)
      then have "includesStr (butlast (c # cs)) pat"
        using assms(1) by (cases "butlast (c # cs)") (auto simp: startsWith_def)
      with Cons.prems(2) show False by simp
    qed
    with True show ?thesis by simp
  next
    case False
    have longer: "length pat \<le> length cs"
    proof (rule ccontr)
      assume "\<not> length pat \<le> length cs"
      with Cons.prems(1) have "length (c # cs) = length pat" by (simp add: endsWith_def)
      with Cons.prems(1) have "c # cs = pat" by (simp add: endsWith_def)
      with False show False by (simp add: startsWith_def)
    qed
    with assms(1) have "cs \<noteq> []" by auto
    from longer Cons.prems(1) have e: "endsWith cs pat"
      by (simp add: endsWith_def Suc_diff_le)
    from \<open>cs \<noteq> []\<close> Cons.prems(2) have "\<not> includesStr (butlast cs) pat" by simp
    with e Cons.IH have "replace cs pat [] = take (length cs - length pat) cs" by simp
    with False longer show ?thesis by (simp add: Suc_diff_le)
  qed
qed

lemma normalizePath_strips_trailing:
  "endsWith p ''.json'' \<Longrightarrow> \<not> includesStr (butlast p) ''.json'' \<Longrightarrow> startsWith p ''/api/'' \<Longrightarrow>
   normalizePath p = take (length p - length ''.json'') p"
  by (simp add: normalizePath_rules replace_trailing del: replace.simps)

section \<open>Properties of the empty-folder detector\<close>

lemma hasNonEmptyContent_accessible:
  "accessibleItems es \<Longrightarrow> hasNonEmptyContent es = Inr (\<not> noFilesIn es)"
  by (induction es rule: hasNonEmptyContent.induct) (auto split: sum.splits bool.splits)

lemma findEmptyFolders_accessible_aux:
  "(accessible n \<longrightarrow> findEmptyFoldersInDirectory dir n = emptyDirectories dir n)"
  "(accessibleItems es \<longrightarrow> checkSubdirectories dir es = (emptyDirectoriesIn dir es, True))"
proof (induction dir n and dir es rule: findEmptyFoldersInDirectory_checkSubdirectories.induct)
  case (1 dir l items)
  then show ?case
    by (auto simp: emptyDirectories_def emptyDirectoriesIn_def hasNonEmptyContent_accessible)
next
  case (9 dir item l es rest)
  then show ?case
    by (auto simp: emptyDirectories_def emptyDirectoriesIn_def Let_def)
qed (auto simp: emptyDirectories_def emptyDirectoriesIn_def)


lemma searchDir_below:
  "findEmptyFolders fs base =
     map (\<lambda>folder. \<lparr>ef_path = folder, ef_relativePath = pathRelative base folder\<rparr>)
       (concat (map (\<lambda>d. case lookupPath fs d of None \<Rightarrow> [] | Some n \<Rightarrow> findEmptyFoldersInDirectory d n)
          [pathJoin base ''app/api'', pathJoin base ''app/lib'']))"
  by (auto simp: findEmptyFolders_def pathExists_def split: option.splits node.splits)

lemma findEmptyFolders_paths:
  "accessibleAt fs (pathJoin base ''app/api'') \<Longrightarrow> accessibleAt fs (pathJoin base ''app/lib'') \<Longrightarrow>
   map ef_path (findEmptyFolders fs base) =
     emptyBelow fs (pathJoin base ''app/api'') @ emptyBelow fs (pathJoin base ''app/lib'')"
  by (simp add: searchDir_below accessibleAt_def emptyBelow_def comp_def
      findEmptyFolders_accessible_aux(1) split: option.splits)

lemma two_empty_subdirectories:
  "findEmptyFoldersInDirectory dir (Dir True [(a, Dir True []), (b, Dir True [])]) =
     [pathJoin dir a, pathJoin dir b, dir]"
  by simp

text \<open>
  C6. When the action and the library root are accessible, \<open>findEmptyFolders\<close> returns
  exactly the directories below the two roots that transitively contain no files,
  children before parents. A directory whose entries are exactly two empty
  subdirectories is reported together with both.
\<close>

theorem findEmptyFolders_complete:
  "(accessibleAt fs (pathJoin base ''app/api'') \<and> accessibleAt fs (pathJoin base ''app/lib'') \<longrightarrow>
      map ef_path (findEmptyFolders fs base) =
        emptyBelow fs (pathJoin base ''app/api'') @ emptyBelow fs (pathJoin base ''app/lib'')) \<and>
   findEmptyFoldersInDirectory dir (Dir True [(a, Dir True []), (b, Dir True [])]) =
     [pathJoin dir a, pathJoin dir b, dir]"
  using findEmptyFolders_paths two_empty_subdirectories by blast

lemma lookup_demo_api:
  "lookupPath demoTree ''/proj/app/api'' =
     Some (Dir True [(''a.json'', File), (''broken.json'', File), (''old.json'', File),
                     (''v1'', Dir True [(''a'', Dir True []), (''b'', Dir True [])])])"
  by code_simp

lemma lookup_demo_lib: "lookupPath demoTree ''/proj/app/lib'' = Some (Dir True [(''check.json'', File)])"
  by code_simp

theorem findEmptyFolders_complete_witness:
  "accessibleAt demoTree ''/proj/app/api'' \<and> accessibleAt demoTree ''/proj/app/lib'' \<and>
   map ef_path (findEmptyFolders demoTree ''/proj'') =
     [''/proj/app/api/v1/a'', ''/proj/app/api/v1/b'', ''/proj/app/api/v1'']"
proof -
  have acc: "accessibleAt demoTree (pathJoin ''/proj'' ''app/api'') \<and>
             accessibleAt demoTree (pathJoin ''/proj'' ''app/lib'')"
    by (simp add: accessibleAt_def pathJoin_def lookup_demo_api lookup_demo_lib)
  have "map ef_path (findEmptyFolders demoTree ''/proj'') =
        emptyBelow demoTree (pathJoin ''/proj'' ''app/api'') @
        emptyBelow demoTree (pathJoin ''/proj'' ''app/lib'')"
    using findEmptyFolders_complete [of demoTree "''/proj''"] acc by blast
  then show ?thesis
    using acc
    by (simp add: emptyBelow_def emptyDirectories_def pathJoin_def lookup_demo_api lookup_demo_lib)
qed

lemma lookup_locked_api:
  "lookupPath lockedTree ''/proj/app/api'' = Some (Dir True [(''cache'', Dir False [])])"
  by code_simp

lemma lookup_locked_lib: "lookupPath lockedTree ''/proj/app/lib'' = None"
  by code_simp

text \<open>
  C6 as stated, for every directory, fails: a folder that cannot be listed is passed
  over, and so is the folder above it, though neither contains a file.
\<close>

theorem findEmptyFolders_complete_counterexample:
  "\<not> (set (emptyBelow lockedTree ''/proj/app/api'') \<subseteq>
        set (map ef_path (findEmptyFolders lockedTree ''/proj'')))"
  by (simp add: searchDir_below emptyBelow_def emptyDirectories_def pathJoin_def
      lookup_locked_api lookup_locked_lib)


lemma split_not_Nil: "split s c \<noteq> []"
  by (induction s) (auto split: list.splits)

lemma length_split_Cons:
  "length (split (x # xs) c) = (if x = c then Suc (length (split xs c)) else length (split xs c))"
proof (cases "split xs c")
  case Nil
  then show ?thesis using split_not_Nil [of xs c] by simp
next
  case (Cons h t)
  then show ?thesis by simp
qed

lemma length_split_append:
  "length (split (p @ c # r) c) = length (split p c) + length (split r c)"
  by (induction p) (simp_all add: length_split_Cons del: split.simps(2))

lemma depth_descendant: "depth p < depth (p @ ''/'' @ r)"
  using split_not_Nil [of r "CHR ''/''"]
  by (simp add: depth_def length_split_append del: split.simps(2))

lemma sortedPaths_deepest_first:
  assumes "i < length (sortedPaths ps)" "j < length (sortedPaths ps)"
    and "depth (sortedPaths ps ! i) < depth (sortedPaths ps ! j)"
  shows "j < i"
proof (rule ccontr)
  assume "\<not> j < i"
  then have "i \<le> j" by simp
  have "sorted (map (\<lambda>p. - int (depth p)) (sortedPaths ps))"
    by (simp add: sortedPaths_def)
  then have "- int (depth (sortedPaths ps ! i)) \<le> - int (depth (sortedPaths ps ! j))"
    using \<open>i \<le> j\<close> assms(2) by (auto simp: sorted_iff_nth_mono dest!: spec [of _ i] spec [of _ j])
  then show False
    using assms(3) by simp
qed

lemma deleteLoop_append:
  "deleteLoop rm fs (xs @ ys) = foldl (deleteFolder rm) (deleteLoop rm fs xs) ys"
  by (simp add: deleteLoop_def)

lemma deleteFolder_deleted:
  "deleted (snd (deleteFolder rm s p)) =
     deleted (snd s) @ (if isDirectoryEmpty (fst s) p \<and> rm (fst s) p = None then [p] else [])"
  by (auto simp: deleteFolder_def split: option.splits)

lemma deleteFolder_errors:
  "errors (snd (deleteFolder rm s p)) =
     errors (snd s) @
       (case rm (fst s) p of
          None \<Rightarrow> []
        | Some failure \<Rightarrow>
            if isDirectoryEmpty (fst s) p then [\<lparr>de_path = p, de_error = fst failure\<rparr>] else [])"
  by (auto simp: deleteFolder_def split: option.splits)

lemma deleteFolder_skip: "\<not> isDirectoryEmpty (fst s) p \<Longrightarrow> deleteFolder rm s p = s"
  by (simp add: deleteFolder_def)

lemma foldl_deleteFolder_mono:
  "set (deleted (snd s)) \<subseteq> set (deleted (snd (foldl (deleteFolder rm) s ys))) \<and>
   set (errors (snd s)) \<subseteq> set (errors (snd (foldl (deleteFolder rm) s ys)))"
proof (induction ys arbitrary: s)
  case Nil
  show ?case by simp
next
  case (Cons y ys)
  have "set (deleted (snd s)) \<subseteq> set (deleted (snd (deleteFolder rm s y)))"
    by (simp add: deleteFolder_deleted)
  moreover have "set (errors (snd s)) \<subseteq> set (errors (snd (deleteFolder rm s y)))"
    by (auto simp: deleteFolder_errors)
  ultimately show ?case
    using Cons [of "deleteFolder rm s y"] by auto
qed

lemma foldl_deleteFolder_deleted_origin:
  "p \<in> set (deleted (snd (foldl (deleteFolder rm) s ys))) \<Longrightarrow>
   p \<in> set (deleted (snd s)) \<or>
   (\<exists>us vs. ys = us @ p # vs \<and> isDirectoryEmpty (fst (foldl (deleteFolder rm) s us)) p \<and>
      rm (fst (foldl (deleteFolder rm) s us)) p = None)"
proof (induction ys arbitrary: s)
  case Nil
  then show ?case by simp
next
  case (Cons y ys)
  from Cons.prems have "p \<in> set (deleted (snd (foldl (deleteFolder rm) (deleteFolder rm s y) ys)))"
    by simp
  from Cons.IH [OF this] show ?case
  proof
    assume "p \<in> set (deleted (snd (deleteFolder rm s y)))"
    then consider "p \<in> set (deleted (snd s))"
      | "p = y" "isDirectoryEmpty (fst s) y" "rm (fst s) y = None"
      by (auto simp: deleteFolder_deleted split: if_splits)
    then show ?thesis
    proof cases
      case 1
      then show ?thesis by simp
    next
      case 2
      then have "y # ys = [] @ p # ys \<and> isDirectoryEmpty (fst (foldl (deleteFolder rm) s [])) p \<and>
        rm (fst (foldl (deleteFolder rm) s [])) p = None"
        by simp
      then show ?thesis by blast
    qed
  next
    assume "\<exists>us vs. ys = us @ p # vs \<and>
      isDirectoryEmpty (fst (foldl (deleteFolder rm) (deleteFolder rm s y) us)) p \<and>
      rm (fst (foldl (deleteFolder rm) (deleteFolder rm s y) us)) p = None"
    then obtain us vs where "ys = us @ p # vs"
      "isDirectoryEmpty (fst (foldl (deleteFolder rm) (deleteFolder rm s y) us)) p"
      "rm (fst (foldl (deleteFolder rm) (deleteFolder rm s y) us)) p = None"
      by blast
    then have "y # ys = (y # us) @ p # vs \<and>
      isDirectoryEmpty (fst (foldl (deleteFolder rm) s (y # us))) p \<and>
      rm (fst (foldl (deleteFolder rm) s (y # us))) p = None"
      by simp
    then show ?thesis by blast
  qed
qed

lemma foldl_deleteFolder_errors_origin:
  "e \<in> set (errors (snd (foldl (deleteFolder rm) s ys))) \<Longrightarrow>
   e \<in> set (errors (snd s)) \<or>
   (\<exists>us vs t. ys = us @ de_path e # vs \<and>
      isDirectoryEmpty (fst (foldl (deleteFolder rm) s us)) (de_path e) \<and>
      rm (fst (foldl (deleteFolder rm) s us)) (de_path e) = Some (de_error e, t))"
proof (induction ys arbitrary: s)
  case Nil
  then show ?case by simp
next
  case (Cons y ys)
  from Cons.prems have "e \<in> set (errors (snd (foldl (deleteFolder rm) (deleteFolder rm s y) ys)))"
    by simp
  from Cons.IH [OF this] show ?case
  proof
    assume "e \<in> set (errors (snd (deleteFolder rm s y)))"
    then have "e \<in> set (errors (snd s)) \<or>
      (\<exists>t. de_path e = y \<and> isDirectoryEmpty (fst s) y \<and> rm (fst s) y = Some (de_error e, t))"
      by (cases "rm (fst s) y") (auto simp: deleteFolder_errors split: if_splits)
    then consider "e \<in> set (errors (snd s))"
      | t where "de_path e = y" "isDirectoryEmpty (fst s) y" "rm (fst s) y = Some (de_error e, t)"
      by blast
    then show ?thesis
    proof cases
      case 1
      then show ?thesis by simp
    next
      case 2
      then have "y # ys = [] @ de_path e # ys \<and>
        isDirectoryEmpty (fst (foldl (deleteFolder rm) s [])) (de_path e) \<and>
        rm (fst (foldl (deleteFolder rm) s [])) (de_path e) = Some (de_error e, t)"
        by simp
      then show ?thesis by blast
    qed
  next
    assume "\<exists>us vs t. ys = us @ de_path e # vs \<and>
      isDirectoryEmpty (fst (foldl (deleteFolder rm) (deleteFolder rm s y) us)) (de_path e) \<and>
      rm (fst (foldl (deleteFolder rm) (deleteFolder rm s y) us)) (de_path e) = Some (de_error e, t)"
    then obtain us vs t where "ys = us @ de_path e # vs"
      "isDirectoryEmpty (fst (foldl (deleteFolder rm) (deleteFolder rm s y) us)) (de_path e)"
      "rm (fst (foldl (deleteFolder rm) (deleteFolder rm s y) us)) (de_path e) = Some (de_error e, t)"
      by blast
    then have "y # ys = (y # us) @ de_path e # vs \<and>
      isDirectoryEmpty (fst (foldl (deleteFolder rm) s (y # us))) (de_path e) \<and>
      rm (fst (foldl (deleteFolder rm) s (y # us))) (de_path e) = Some (de_error e, t)"
      by simp
    then show ?thesis by blast
  qed
qed

lemma deleteLoop_deleted_origin:
  "p \<in> set (deleted (snd (deleteLoop rm fs ys))) \<Longrightarrow>
   \<exists>us vs. ys = us @ p # vs \<and> isDirectoryEmpty (fst (deleteLoop rm fs us)) p \<and>
     rm (fst (deleteLoop rm fs us)) p = None"
  using foldl_deleteFolder_deleted_origin [of p rm "(fs, \<lparr>deleted = [], errors = []\<rparr>)" ys]
  by (simp add: deleteLoop_def)

lemma deleteLoop_errors_origin:
  "e \<in> set (errors (snd (deleteLoop rm fs ys))) \<Longrightarrow>
   \<exists>us vs t. ys = us @ de_path e # vs \<and> isDirectoryEmpty (fst (deleteLoop rm fs us)) (de_path e) \<and>
     rm (fst (deleteLoop rm fs us)) (de_path e) = Some (de_error e, t)"
  using foldl_deleteFolder_errors_origin [of e rm "(fs, \<lparr>deleted = [], errors = []\<rparr>)" ys]
  by (simp add: deleteLoop_def)

lemma deleteLoop_turn:
  "deleteLoop rm fs (xs @ p # ys) =
     foldl (deleteFolder rm) (deleteFolder rm (deleteLoop rm fs xs) p) ys"
  by (simp add: deleteLoop_def)

lemma deleteLoop_turn_deleted:
  assumes "isDirectoryEmpty (fst (deleteLoop rm fs xs)) p" "rm (fst (deleteLoop rm fs xs)) p = None"
  shows "p \<in> set (deleted (snd (deleteLoop rm fs (xs @ p # ys))))"
proof -
  have "p \<in> set (deleted (snd (deleteFolder rm (deleteLoop rm fs xs) p)))"
    using assms by (simp add: deleteFolder_deleted)
  then show ?thesis
    using foldl_deleteFolder_mono [of "deleteFolder rm (deleteLoop rm fs xs) p" rm ys]
    by (auto simp: deleteLoop_turn)
qed

lemma deleteLoop_turn_error:
  assumes "isDirectoryEmpty (fst (deleteLoop rm fs xs)) p"
    "rm (fst (deleteLoop rm fs xs)) p = Some (msg, t)"
  shows "\<lparr>de_path = p, de_error = msg\<rparr> \<in> set (errors (snd (deleteLoop rm fs (xs @ p # ys))))"
proof -
  have "\<lparr>de_path = p, de_error = msg\<rparr> \<in> set (errors (snd (deleteFolder rm (deleteLoop rm fs xs) p)))"
    using assms by (simp add: deleteFolder_errors)
  then show ?thesis
    using foldl_deleteFolder_mono [of "deleteFolder rm (deleteLoop rm fs xs) p" rm ys]
    by (auto simp: deleteLoop_turn)
qed

lemma deleteLoop_turn_skip:
  "\<not> isDirectoryEmpty (fst (deleteLoop rm fs xs)) p \<Longrightarrow> deleteLoop rm fs (xs @ [p]) = deleteLoop rm fs xs"
  by (simp add: deleteLoop_append deleteFolder_skip)


lemma isDirectoryEmptyNode_noFiles:
  "(isDirectoryEmptyNode n \<longrightarrow> containsNoFiles n)"
  "(allItemsEmpty es \<longrightarrow> noFilesIn es)"
  by (induction n and es rule: isDirectoryEmptyNode_allItemsEmpty.induct) (auto split: if_splits)

lemma isDirectoryEmpty_noFiles:
  "isDirectoryEmpty t d \<Longrightarrow> \<exists>n. lookupPath t d = Some n \<and> containsNoFiles n"
  by (auto simp: isDirectoryEmpty_def isDirectoryEmptyNode_noFiles(1) split: option.splits)

text \<open>
  C7. \<open>deleteEmptyFolders\<close> takes the paths by falling depth, each input path once, and a
  path \<open>p/r\<close> below a path \<open>p\<close> is deeper than \<open>p\<close>, so it has its turn first. At the turn
  of a path the directory is checked in the tree as the turns before have left it: when
  it is empty and the removal succeeds the path is in \<open>deleted\<close>, when it is empty and the
  removal throws the path and the message are in \<open>errors\<close>, and the loop goes on in both
  cases; when it is not empty nothing changes. Every path in \<open>deleted\<close> and every entry of
  \<open>errors\<close> comes from such a turn, and a directory found empty transitively contains no
  files.
\<close>

theorem deleteEmptyFolders_batch:
  "(\<forall>i j. i < length (sortedPaths ps) \<and> j < length (sortedPaths ps) \<and>
      depth (sortedPaths ps ! i) < depth (sortedPaths ps ! j) \<longrightarrow> j < i) \<and>
   (\<forall>p r. depth p < depth (p @ ''/'' @ r)) \<and>
   mset (sortedPaths ps) = mset ps \<and>
   (\<forall>xs p ys. sortedPaths ps = xs @ p # ys \<longrightarrow>
      (isDirectoryEmpty (fst (deleteLoop rm fs xs)) p \<and> rm (fst (deleteLoop rm fs xs)) p = None \<longrightarrow>
         p \<in> set (deleted (snd (deleteEmptyFolders rm fs ps)))) \<and>
      (\<forall>msg t. isDirectoryEmpty (fst (deleteLoop rm fs xs)) p \<and>
           rm (fst (deleteLoop rm fs xs)) p = Some (msg, t) \<longrightarrow>
         \<lparr>de_path = p, de_error = msg\<rparr> \<in> set (errors (snd (deleteEmptyFolders rm fs ps)))) \<and>
      (\<not> isDirectoryEmpty (fst (deleteLoop rm fs xs)) p \<longrightarrow>
         deleteLoop rm fs (xs @ [p]) = deleteLoop rm fs xs)) \<and>
   (\<forall>p \<in> set (deleted (snd (deleteEmptyFolders rm fs ps))).
      \<exists>xs ys. sortedPaths ps = xs @ p # ys \<and>
        isDirectoryEmpty (fst (deleteLoop rm fs xs)) p \<and> rm (fst (deleteLoop rm fs xs)) p = None) \<and>
   (\<forall>e \<in> set (errors (snd (deleteEmptyFolders rm fs ps))).
      \<exists>xs ys t. sortedPaths ps = xs @ de_path e # ys \<and>
        isDirectoryEmpty (fst (deleteLoop rm fs xs)) (de_path e) \<and>
        rm (fst (deleteLoop rm fs xs)) (de_path e) = Some (de_error e, t)) \<and>
   (\<forall>t d. isDirectoryEmpty t d \<longrightarrow> (\<exists>n. lookupPath t d = Some n \<and> containsNoFiles n))"
proof -
  have order: "\<forall>i j. i < length (sortedPaths ps) \<and> j < length (sortedPaths ps) \<and>
      depth (sortedPaths ps ! i) < depth (sortedPaths ps ! j) \<longrightarrow> j < i"
    using sortedPaths_deepest_first by blast
  have deeper: "\<forall>p r. depth p < depth (p @ ''/'' @ r)"
    using depth_descendant by blast
  have perm: "mset (sortedPaths ps) = mset ps"
    by (simp add: sortedPaths_def)
  have turn: "\<forall>xs p ys. sortedPaths ps = xs @ p # ys \<longrightarrow>
      (isDirectoryEmpty (fst (deleteLoop rm fs xs)) p \<and> rm (fst (deleteLoop rm fs xs)) p = None \<longrightarrow>
         p \<in> set (deleted (snd (deleteEmptyFolders rm fs ps)))) \<and>
      (\<forall>msg t. isDirectoryEmpty (fst (deleteLoop rm fs xs)) p \<and>
           rm (fst (deleteLoop rm fs xs)) p = Some (msg, t) \<longrightarrow>
         \<lparr>de_path = p, de_error = msg\<rparr> \<in> set (errors (snd (deleteEmptyFolders rm fs ps)))) \<and>
      (\<not> isDirectoryEmpty (fst (deleteLoop rm fs xs)) p \<longrightarrow>
         deleteLoop rm fs (xs @ [p]) = deleteLoop rm fs xs)"
    by (simp add: deleteEmptyFolders_def deleteLoop_turn_deleted deleteLoop_turn_error
        deleteLoop_turn_skip)
  have verified: "\<forall>p \<in> set (deleted (snd (deleteEmptyFolders rm fs ps))).
      \<exists>xs ys. sortedPaths ps = xs @ p # ys \<and>
        isDirectoryEmpty (fst (deleteLoop rm fs xs)) p \<and> rm (fst (deleteLoop rm fs xs)) p = None"
    using deleteLoop_deleted_origin by (simp add: deleteEmptyFolders_def)
  have collected: "\<forall>e \<in> set (errors (snd (deleteEmptyFolders rm fs ps))).
      \<exists>xs ys t. sortedPaths ps = xs @ de_path e # ys \<and>
        isDirectoryEmpty (fst (deleteLoop rm fs xs)) (de_path e) \<and>
        rm (fst (deleteLoop rm fs xs)) (de_path e) = Some (de_error e, t)"
    using deleteLoop_errors_origin by (simp add: deleteEmptyFolders_def)
  have empty: "\<forall>t d. isDirectoryEmpty t d \<longrightarrow> (\<exists>n. lookupPath t d = Some n \<and> containsNoFiles n)"
    using isDirectoryEmpty_noFiles by blast
  from order deeper perm turn verified collected empty show ?thesis
    by (intro conjI)
qed

lemma demo_sortedPaths:
  "sortedPaths demoPaths =
     [''/proj/app/api/v1/a'', ''/proj/app/api/v1/b''] @ ''/proj/app/api/v1'' #
     [''/proj/app/lib'', ''/proj/app/api'']"
  by code_simp

lemma demo_before_v1:
  "isDirectoryEmpty (fst (deleteLoop demoRmError demoTree [''/proj/app/api/v1/a'', ''/proj/app/api/v1/b'']))
     ''/proj/app/api/v1''"
  by code_simp

lemma demo_sortedPaths_b:
  "sortedPaths demoPaths =
     [''/proj/app/api/v1/a''] @ ''/proj/app/api/v1/b'' #
     [''/proj/app/api/v1'', ''/proj/app/lib'', ''/proj/app/api'']"
  by code_simp

lemma demo_before_b:
  "isDirectoryEmpty (fst (deleteLoop demoRmError demoTree [''/proj/app/api/v1/a'']))
     ''/proj/app/api/v1/b''"
  by code_simp

theorem deleteEmptyFolders_batch_witness:
  "sortedPaths demoPaths =
     [''/proj/app/api/v1/a'', ''/proj/app/api/v1/b'', ''/proj/app/api/v1'', ''/proj/app/lib'',
      ''/proj/app/api''] \<and>
   demoRmError demoTree ''/proj/app/api/v1/b'' = Some (''EPERM'', demoTree) \<and>
   ''/proj/app/api/v1'' \<in> set (deleted (snd (deleteEmptyFolders demoRmError demoTree demoPaths))) \<and>
   \<lparr>de_path = ''/proj/app/api/v1/b'', de_error = ''EPERM''\<rparr>
     \<in> set (errors (snd (deleteEmptyFolders demoRmError demoTree demoPaths)))"
proof -
  note batch = deleteEmptyFolders_batch [of demoPaths demoRmError demoTree]
  from batch have turn: "\<forall>xs p ys. sortedPaths demoPaths = xs @ p # ys \<longrightarrow>
      (isDirectoryEmpty (fst (deleteLoop demoRmError demoTree xs)) p \<and>
       demoRmError (fst (deleteLoop demoRmError demoTree xs)) p = None \<longrightarrow>
         p \<in> set (deleted (snd (deleteEmptyFolders demoRmError demoTree demoPaths)))) \<and>
      (\<forall>msg t. isDirectoryEmpty (fst (deleteLoop demoRmError demoTree xs)) p \<and>
           demoRmError (fst (deleteLoop demoRmError demoTree xs)) p = Some (msg, t) \<longrightarrow>
         \<lparr>de_path = p, de_error = msg\<rparr>
           \<in> set (errors (snd (deleteEmptyFolders demoRmError demoTree demoPaths)))) \<and>
      (\<not> isDirectoryEmpty (fst (deleteLoop demoRmError demoTree xs)) p \<longrightarrow>
         deleteLoop demoRmError demoTree (xs @ [p]) = deleteLoop demoRmError demoTree xs)"
    by (rule conjunct1 [OF conjunct2 [OF conjunct2 [OF conjunct2]]])
  have ok: "demoRmError t ''/proj/app/api/v1'' = None" for t
    by (simp add: demoRmError_def)
  have fails: "demoRmError t ''/proj/app/api/v1/b'' = Some (''EPERM'', t)" for t
    by (simp add: demoRmError_def)
  from turn [rule_format, OF demo_sortedPaths, THEN conjunct1] demo_before_v1 ok
  have "''/proj/app/api/v1'' \<in> set (deleted (snd (deleteEmptyFolders demoRmError demoTree demoPaths)))"
    by simp
  moreover from turn [rule_format, OF demo_sortedPaths_b, THEN conjunct2, THEN conjunct1] demo_before_b fails
  have "\<lparr>de_path = ''/proj/app/api/v1/b'', de_error = ''EPERM''\<rparr>
     \<in> set (errors (snd (deleteEmptyFolders demoRmError demoTree demoPaths)))"
    by blast
  ultimately show ?thesis
    using fails [of demoTree] demo_sortedPaths by simp
qed
lemma demo_result:
  "snd (deleteEmptyFolders demoRmError demoTree demoPaths) =
     \<lparr>deleted = [''/proj/app/api/v1/a'', ''/proj/app/api/v1''],
      errors = [\<lparr>de_path = ''/proj/app/api/v1/b'', de_error = ''EPERM''\<rparr>]\<rparr>"
  by code_simp

text \<open>
  C10. Among distinct input paths, a path whose directory is not empty at its turn is in
  neither \<open>deleted\<close> nor \<open>errors\<close>.
\<close>

theorem deleteEmptyFolders_skips_silently:
  "distinct ps \<Longrightarrow> sortedPaths ps = xs @ p # ys \<Longrightarrow>
   \<not> isDirectoryEmpty (fst (deleteLoop rm fs xs)) p \<Longrightarrow>
   p \<notin> set (deleted (snd (deleteEmptyFolders rm fs ps))) \<and>
   p \<notin> de_path ` set (errors (snd (deleteEmptyFolders rm fs ps)))"
proof -
  assume d: "distinct ps" and sp: "sortedPaths ps = xs @ p # ys"
    and ne: "\<not> isDirectoryEmpty (fst (deleteLoop rm fs xs)) p"
  have "distinct (sortedPaths ps)"
    using d by (simp add: sortedPaths_def)
  then have notin: "p \<notin> set xs" "p \<notin> set ys"
    using sp by auto
  have uniq: "us = xs" if "sortedPaths ps = us @ p # vs" for us vs
    using that sp notin by (simp add: append_Cons_eq_iff)
  have "p \<notin> set (deleted (snd (deleteEmptyFolders rm fs ps)))"
  proof
    assume "p \<in> set (deleted (snd (deleteEmptyFolders rm fs ps)))"
    then obtain us vs where "sortedPaths ps = us @ p # vs"
      "isDirectoryEmpty (fst (deleteLoop rm fs us)) p"
      using deleteLoop_deleted_origin [of p rm fs "sortedPaths ps"]
      by (auto simp: deleteEmptyFolders_def)
    then show False using uniq ne by blast
  qed
  moreover have "p \<notin> de_path ` set (errors (snd (deleteEmptyFolders rm fs ps)))"
  proof
    assume "p \<in> de_path ` set (errors (snd (deleteEmptyFolders rm fs ps)))"
    then obtain e where e: "e \<in> set (errors (snd (deleteEmptyFolders rm fs ps)))" "de_path e = p"
      by auto
    then obtain us vs where "sortedPaths ps = us @ p # vs"
      "isDirectoryEmpty (fst (deleteLoop rm fs us)) p"
      using deleteLoop_errors_origin [of e rm fs "sortedPaths ps"]
      by (auto simp: deleteEmptyFolders_def)
    then show False using uniq ne by blast
  qed
  ultimately show ?thesis by simp
qed

lemma demo_before_api:
  "\<not> isDirectoryEmpty (fst (deleteLoop demoRmError demoTree
        [''/proj/app/api/v1/a'', ''/proj/app/api/v1/b'', ''/proj/app/api/v1'', ''/proj/app/lib'']))
      ''/proj/app/api''"
  by code_simp

lemma demo_sortedPaths_api:
  "sortedPaths demoPaths =
     [''/proj/app/api/v1/a'', ''/proj/app/api/v1/b'', ''/proj/app/api/v1'', ''/proj/app/lib''] @
     ''/proj/app/api'' # []"
  by code_simp

theorem deleteEmptyFolders_skips_silently_witness:
  "distinct demoPaths \<and> ''/proj/app/api'' \<in> set demoPaths \<and>
   ''/proj/app/api'' \<notin> set (deleted (snd (deleteEmptyFolders demoRmError demoTree demoPaths))) \<and>
   ''/proj/app/api'' \<notin> de_path ` set (errors (snd (deleteEmptyFolders demoRmError demoTree demoPaths)))"
proof -
  have d: "distinct demoPaths"
    by (simp add: demoPaths_def)
  have "''/proj/app/api'' \<in> set demoPaths"
    by (simp add: demoPaths_def)
  with d deleteEmptyFolders_skips_silently [OF d demo_sortedPaths_api demo_before_api]
  show ?thesis by blast
qed

section \<open>Properties of the scan\<close>

lemma preservedD: "preserved R \<Longrightarrow> R a b \<Longrightarrow> R (addReference a p f t) (addReference b p f t)"
  by (simp add: preserved_def)

lemma foldl_related:
  "(\<And>a b x. R a b \<Longrightarrow> R (g a x) (g b x)) \<Longrightarrow> R a b \<Longrightarrow> R (foldl g a xs) (foldl g b xs)"
  by (induction xs arbitrary: a b) simp_all

lemma foldE_related:
  "(\<And>a b x. R a b \<Longrightarrow> rel_sum (=) R (g a x) (g b x)) \<Longrightarrow> R a b \<Longrightarrow>
   rel_sum (=) R (foldE g a xs) (foldE g b xs)"
proof (induction xs arbitrary: a b)
  case Nil
  then show ?case by simp
next
  case (Cons x xs)
  from Cons.prems have "rel_sum (=) R (g a x) (g b x)" by blast
  then show ?case
    using Cons.IH Cons.prems(1) by (cases "g a x"; cases "g b x") auto
qed

lemma scanForApiUrlPatterns_related:
  assumes "preserved R" "R a b"
  shows "R (scanForApiUrlPatterns a s f) (scanForApiUrlPatterns b s f)"
proof -
  have 1: "R (foldl (\<lambda>s m. addReference s (cleanPath m) f ''url-string'') a ms)
             (foldl (\<lambda>s m. addReference s (cleanPath m) f ''url-string'') b ms)" for ms
    using assms by (intro foldl_related [where R = R]) (auto intro: preservedD)
  have 2: "R x y \<Longrightarrow>
     R (foldl (\<lambda>s m. case matchFirst m reApiPath of None \<Rightarrow> s
                | Some apiMatch \<Rightarrow> addReference s (cleanPath (fst apiMatch)) f ''template-url'') x ms)
       (foldl (\<lambda>s m. case matchFirst m reApiPath of None \<Rightarrow> s
                | Some apiMatch \<Rightarrow> addReference s (cleanPath (fst apiMatch)) f ''template-url'') y ms)"
    for x y ms
    using assms(1) by (intro foldl_related [where R = R]) (auto intro: preservedD split: option.splits)
  show ?thesis
    unfolding scanForApiUrlPatterns_def Let_def by (rule 2) (rule 1)
qed

lemma attrRefs_related:
  "preserved R \<Longrightarrow> R a b \<Longrightarrow> rel_sum (=) R (attrRefs n t f a ms) (attrRefs n t f b ms)"
  by (induction ms arbitrary: a b) (auto intro: preservedD split: option.splits)

lemma hrefRefs_related:
  "preserved R \<Longrightarrow> R a b \<Longrightarrow> rel_sum (=) R (hrefRefs f a ms) (hrefRefs f b ms)"
  by (induction ms arbitrary: a b) (auto intro: scanForApiUrlPatterns_related split: option.splits)

lemma callRefs_related:
  "preserved R \<Longrightarrow> R a b \<Longrightarrow> rel_sum (=) R (callRefs re t f a ms) (callRefs re t f b ms)"
  by (induction ms arbitrary: a b) (auto intro: preservedD split: option.splits)

lemma bind_related:
  "rel_sum (=) R x y \<Longrightarrow> (\<And>s s'. R s s' \<Longrightarrow> rel_sum (=) R' (k s) (k' s')) \<Longrightarrow>
   rel_sum (=) R' (case x of Inl e \<Rightarrow> Inl e | Inr s \<Rightarrow> k s) (case y of Inl e \<Rightarrow> Inl e | Inr s \<Rightarrow> k' s)"
  by (cases x; cases y) auto

lemma scanHtmlFile_related:
  assumes "preserved R" "R a b"
  shows "rel_sum (=) R (scanHtmlFile pr a f) (scanHtmlFile pr b f)"
proof (cases "readFile pr f")
  case None
  then show ?thesis by (simp add: scanHtmlFile_def)
next
  case (Some c)
  show ?thesis
    unfolding scanHtmlFile_def Some option.case
  proof (rule bind_related [where R = R])
    show "rel_sum (=) R (attrRefs ''url'' ''html-url'' f a (matchAll c (reAttr ''url'')))
                        (attrRefs ''url'' ''html-url'' f b (matchAll c (reAttr ''url'')))"
      using assms by (rule attrRefs_related)
  next
    fix s1 s1' assume r1: "R s1 s1'"
    show "rel_sum (=) R
        (case attrRefs ''action'' ''html-action'' f s1 (matchAll c (reAttr ''action'')) of
           Inl e \<Rightarrow> Inl e
         | Inr st2 \<Rightarrow> (case hrefRefs f st2 (matchAll c (reAttr ''href'')) of
                          Inl e \<Rightarrow> Inl e | Inr st3 \<Rightarrow> Inr (scanForApiUrlPatterns st3 c f)))
        (case attrRefs ''action'' ''html-action'' f s1' (matchAll c (reAttr ''action'')) of
           Inl e \<Rightarrow> Inl e
         | Inr st2 \<Rightarrow> (case hrefRefs f st2 (matchAll c (reAttr ''href'')) of
                          Inl e \<Rightarrow> Inl e | Inr st3 \<Rightarrow> Inr (scanForApiUrlPatterns st3 c f)))"
    proof (rule bind_related [where R = R])
      show "rel_sum (=) R (attrRefs ''action'' ''html-action'' f s1 (matchAll c (reAttr ''action'')))
                          (attrRefs ''action'' ''html-action'' f s1' (matchAll c (reAttr ''action'')))"
        using assms(1) r1 by (rule attrRefs_related)
    next
      fix s2 s2' assume r2: "R s2 s2'"
      show "rel_sum (=) R
          (case hrefRefs f s2 (matchAll c (reAttr ''href'')) of
             Inl e \<Rightarrow> Inl e | Inr st3 \<Rightarrow> Inr (scanForApiUrlPatterns st3 c f))
          (case hrefRefs f s2' (matchAll c (reAttr ''href'')) of
             Inl e \<Rightarrow> Inl e | Inr st3 \<Rightarrow> Inr (scanForApiUrlPatterns st3 c f))"
      proof (rule bind_related [where R = R])
        show "rel_sum (=) R (hrefRefs f s2 (matchAll c (reAttr ''href'')))
                            (hrefRefs f s2' (matchAll c (reAttr ''href'')))"
          using assms(1) r2 by (rule hrefRefs_related)
      next
        fix s3 s3' assume "R s3 s3'"
        then show "rel_sum (=) R (Inr (scanForApiUrlPatterns s3 c f)) (Inr (scanForApiUrlPatterns s3' c f))"
          using assms(1) by (simp add: scanForApiUrlPatterns_related)
      qed
    qed
  qed
qed

lemma scanHtmlFiles_related:
  "preserved R \<Longrightarrow> R a b \<Longrightarrow> rel_sum (=) R (scanHtmlFiles pr a) (scanHtmlFiles pr b)"
  unfolding scanHtmlFiles_def by (rule foldE_related [where R = R]) (auto intro: scanHtmlFile_related)

lemma scanJavaScriptFile_related:
  assumes "preserved R" "R a b"
  shows "rel_sum (=) R (scanJavaScriptFile pr a f) (scanJavaScriptFile pr b f)"
proof (cases "readFile pr f")
  case None
  then show ?thesis by (simp add: scanJavaScriptFile_def)
next
  case (Some c)
  show ?thesis
    unfolding scanJavaScriptFile_def Some option.case
  proof (rule bind_related [where R = R])
    show "rel_sum (=) R (callRefs reFetch ''js-fetch'' f a (matchAll c reFetch))
                        (callRefs reFetch ''js-fetch'' f b (matchAll c reFetch))"
      using assms by (rule callRefs_related)
  next
    fix s1 s1' assume "R s1 s1'"
    with assms(1) show "rel_sum (=) R (callRefs reAjax ''js-ajax'' f s1 (matchAll c reAjax))
                          (callRefs reAjax ''js-ajax'' f s1' (matchAll c reAjax))"
      by (rule callRefs_related)
  qed
qed

lemma scanJavaScriptFiles_related:
  "preserved R \<Longrightarrow> R a b \<Longrightarrow> rel_sum (=) R (scanJavaScriptFiles pr a) (scanJavaScriptFiles pr b)"
  unfolding scanJavaScriptFiles_def by (rule foldE_related [where R = R]) (auto intro: scanJavaScriptFile_related)

lemma queueApiFileRefs_related:
  "preserved R \<Longrightarrow> R a b \<Longrightarrow> rel_sum R R (queueApiFileRefs f a vs) (queueApiFileRefs f b vs)"
  by (induction f a vs arbitrary: b rule: queueApiFileRefs.induct) (auto intro: preservedD)

lemma stringRefs_related:
  "preserved R \<Longrightarrow> R a b \<Longrightarrow> R (stringRefs t f a vs) (stringRefs t f b vs)"
  unfolding stringRefs_def by (rule foldl_related [where R = R]) (auto intro: preservedD split: json.splits)

lemma stringUrls_related:
  "preserved R \<Longrightarrow> R a b \<Longrightarrow> R (stringUrls f a vs) (stringUrls f b vs)"
  unfolding stringUrls_def
  by (rule foldl_related [where R = R]) (auto intro: scanForApiUrlPatterns_related split: json.splits)

lemma scanJsonFile_rest_related:
  assumes "preserved R" "R a b"
  shows "R (stringUrls f
              (stringUrls f
                (stringUrls f
                  (stringRefs ''exec-module'' f (stringRefs ''exec-string'' f a v1) v2) v3) v4) v5)
           (stringUrls f
              (stringUrls f
                (stringUrls f
                  (stringRefs ''exec-module'' f (stringRefs ''exec-string'' f b v1) v2) v3) v4) v5)"
proof -
  have "R (stringRefs ''exec-string'' f a v1) (stringRefs ''exec-string'' f b v1)"
    using assms by (rule stringRefs_related)
  with assms(1) have "R (stringRefs ''exec-module'' f (stringRefs ''exec-string'' f a v1) v2)
                        (stringRefs ''exec-module'' f (stringRefs ''exec-string'' f b v1) v2)"
    by (rule stringRefs_related)
  with assms(1) have "R (stringUrls f (stringRefs ''exec-module'' f (stringRefs ''exec-string'' f a v1) v2) v3)
                        (stringUrls f (stringRefs ''exec-module'' f (stringRefs ''exec-string'' f b v1) v2) v3)"
    by (rule stringUrls_related)
  with assms(1) have "R (stringUrls f (stringUrls f (stringRefs ''exec-module'' f (stringRefs ''exec-string'' f a v1) v2) v3) v4)
                        (stringUrls f (stringUrls f (stringRefs ''exec-module'' f (stringRefs ''exec-string'' f b v1) v2) v3) v4)"
    by (rule stringUrls_related)
  with assms(1) show ?thesis
    by (rule stringUrls_related)
qed

lemma scanJsonFile_related:
  assumes "preserved R" "R a b"
  shows "R (scanJsonFile pr a f) (scanJsonFile pr b f)"
proof (cases "readJson pr f")
  case None
  then show ?thesis using assms(2) by (simp add: scanJsonFile_def)
next
  case (Some c)
  have q: "rel_sum R R (queueApiFileRefs f a (findInObject c ''api_file''))
                    (queueApiFileRefs f b (findInObject c ''api_file''))"
    using assms by (rule queueApiFileRefs_related)
  show ?thesis
  proof (cases "queueApiFileRefs f a (findInObject c ''api_file'')")
    case (Inl a')
    with q obtain b' where "queueApiFileRefs f b (findInObject c ''api_file'') = Inl b'" "R a' b'"
      by (cases "queueApiFileRefs f b (findInObject c ''api_file'')") auto
    with Inl show ?thesis
      by (simp add: scanJsonFile_def Some)
  next
    case (Inr a')
    with q obtain b' where b': "queueApiFileRefs f b (findInObject c ''api_file'') = Inr b'" "R a' b'"
      by (cases "queueApiFileRefs f b (findInObject c ''api_file'')") auto
    show ?thesis
      unfolding scanJsonFile_def Some option.case Inr b'(1) sum.case Let_def
      using assms(1) b'(2) by (rule scanJsonFile_rest_related)
  qed
qed

lemma scanJsonFiles_related:
  "preserved R \<Longrightarrow> R a b \<Longrightarrow> R (scanJsonFiles pr a) (scanJsonFiles pr b)"
  unfolding scanJsonFiles_def by (rule foldl_related [where R = R]) (auto intro: scanJsonFile_related)

lemma findReferences_related:
  assumes "preserved R" "R a b"
  shows "rel_sum (=) R (findReferences pr a) (findReferences pr b)"
  unfolding findReferences_def
proof (rule bind_related [where R = R])
  show "rel_sum (=) R (scanHtmlFiles pr a) (scanHtmlFiles pr b)"
    using assms by (rule scanHtmlFiles_related)
next
  fix s s' assume "R s s'"
  with assms(1) have "R (scanJsonFiles pr s) (scanJsonFiles pr s')"
    by (rule scanJsonFiles_related)
  with assms(1) show "rel_sum (=) R (scanJavaScriptFiles pr (scanJsonFiles pr s))
                                     (scanJavaScriptFiles pr (scanJsonFiles pr s'))"
    by (rule scanJavaScriptFiles_related)
qed

lemma map_fst_pushReference: "map fst (pushReference m k r) = map fst m"
  by (induction m) auto

lemma addReference_fields:
  "projectRoot (addReference st p f t) = projectRoot st"
  "warnings (addReference st p f t) = warnings st"
  "map fst (serverActions (addReference st p f t)) = map fst (serverActions st)"
  by (simp_all add: addReference_def Let_def map_fst_pushReference)


lemma preserved_sameButWarnings: "preserved sameButWarnings"
  by (simp add: preserved_def sameButWarnings_def addReference_def Let_def)

lemma preserved_keeping: "preserved (keeping c)"
  by (simp add: preserved_def keeping_def addReference_fields)

lemma findReferences_keeps:
  assumes "findReferences pr a = Inr b"
  shows "projectRoot b = projectRoot a \<and> map fst (serverActions b) = map fst (serverActions a) \<and>
         warnings b = warnings a"
proof -
  have "rel_sum (=) (keeping (projectRoot a, map fst (serverActions a), warnings a))
          (findReferences pr a) (findReferences pr a)"
    by (rule findReferences_related [OF preserved_keeping]) (simp add: keeping_def)
  with assms show ?thesis
    by (simp add: keeping_def)
qed












lemma discoverFile_fields:
  "projectRoot (discoverFile pr st file) = projectRoot st"
  "refLookup (discoverFile pr st file) = refLookup st"
  "serverActions (discoverFile pr st file) =
     (case declaredBy pr (projectRoot st) file of
        None \<Rightarrow> serverActions st
      | Some ka \<Rightarrow> mapSet (serverActions st) (fst ka) (snd ka))"
  by (simp_all add: discoverFile_def declaredBy_def warn_def Let_def split: option.splits json.splits)



lemma analyzeResults_index:
  "serverActions a = serverActions b \<Longrightarrow> analyzeResults a = analyzeResults b"
  by (simp add: analyzeResults_def)


lemma withoutFile_fields:
  "readJson (withoutFile pr f) = readJson pr"
  "readFile (withoutFile pr f) = readFile pr"
  "globHtml (withoutFile pr f) = globHtml pr"
  "globJs (withoutFile pr f) = globJs pr"
  "dirs (withoutFile pr f) = dirs pr"
  "globActions (withoutFile pr f) = removeAll f (globActions pr)"
  "globJson (withoutFile pr f) = removeAll f (globJson pr)"
  by (simp_all add: withoutFile_def)

lemma discoverFile_without: "discoverFile (withoutFile pr f) = discoverFile pr"
  by (simp add: fun_eq_iff discoverFile_def withoutFile_fields)

lemma scanJsonFile_without: "scanJsonFile (withoutFile pr f) = scanJsonFile pr"
  by (simp add: fun_eq_iff scanJsonFile_def withoutFile_fields)

lemma discoverFile_sameButWarnings:
  "sameButWarnings a b \<Longrightarrow> sameButWarnings (discoverFile pr a x) (discoverFile pr b x)"
  by (auto simp: sameButWarnings_def discoverFile_fields split: option.splits)

lemma discoverFile_unparsable:
  "readJson pr f = None \<Longrightarrow> discoverFile pr a f = warn a (pathRelative (projectRoot a) f)"
  by (simp add: discoverFile_def Let_def)

lemma discover_without:
  "readJson pr f = None \<Longrightarrow> sameButWarnings a b \<Longrightarrow>
   sameButWarnings (foldl (discoverFile pr) a xs) (foldl (discoverFile pr) b (removeAll f xs))"
proof (induction xs arbitrary: a b)
  case Nil
  then show ?case by simp
next
  case (Cons x xs)
  show ?case
  proof (cases "x = f")
    case True
    have "sameButWarnings (discoverFile pr a f) b"
      using Cons.prems by (simp add: discoverFile_unparsable sameButWarnings_def warn_def)
    with Cons.IH [OF Cons.prems(1)] True show ?thesis by simp
  next
    case False
    have "sameButWarnings (discoverFile pr a x) (discoverFile pr b x)"
      using Cons.prems(2) by (rule discoverFile_sameButWarnings)
    with Cons.IH [OF Cons.prems(1)] False show ?thesis by simp
  qed
qed

lemma warnings_discoverFile: "set (warnings a) \<subseteq> set (warnings (discoverFile pr a x))"
  by (auto simp: discoverFile_def warn_def Let_def split: option.splits json.splits)

lemma warnings_discover_mono: "set (warnings a) \<subseteq> set (warnings (foldl (discoverFile pr) a xs))"
proof (induction xs arbitrary: a)
  case Nil
  show ?case by simp
next
  case (Cons x xs)
  show ?case
    using warnings_discoverFile [of a pr x] Cons [of "discoverFile pr a x"] by auto
qed

lemma warnings_discover_unparsable:
  "readJson pr f = None \<Longrightarrow> f \<in> set xs \<Longrightarrow>
   (''Warning: Could not parse '' @ pathRelative (projectRoot a) f)
     \<in> set (warnings (foldl (discoverFile pr) a xs))"
proof (induction xs arbitrary: a)
  case Nil
  then show ?case by simp
next
  case (Cons x xs)
  show ?case
  proof (cases "x = f")
    case True
    have "(''Warning: Could not parse '' @ pathRelative (projectRoot a) f)
            \<in> set (warnings (discoverFile pr a f))"
      using Cons.prems(1) by (simp add: discoverFile_unparsable warn_def)
    then show ?thesis
      using True warnings_discover_mono [of "discoverFile pr a f" pr xs] by auto
  next
    case False
    with Cons.prems have "f \<in> set xs" by simp
    from Cons.IH [OF Cons.prems(1) this, of "discoverFile pr a x"] show ?thesis
      by (simp add: discoverFile_fields)
  qed
qed

lemma foldl_removeAll_noop:
  "(\<And>s. g s f = s) \<Longrightarrow> foldl g s (removeAll f xs) = foldl g s xs"
  by (induction xs arbitrary: s) auto

lemma scanHtmlFile_without: "scanHtmlFile (withoutFile pr f) = scanHtmlFile pr"
  by (intro ext) (simp add: scanHtmlFile_def withoutFile_fields)

lemma scanJavaScriptFile_without: "scanJavaScriptFile (withoutFile pr f) = scanJavaScriptFile pr"
  by (intro ext) (simp add: scanJavaScriptFile_def withoutFile_fields)

lemma findReferences_without:
  assumes "readJson pr f = None"
  shows "findReferences (withoutFile pr f) s = findReferences pr s"
proof -
  have "scanJsonFile pr s' f = s'" for s'
    using assms by (simp add: scanJsonFile_def)
  then have json: "scanJsonFiles (withoutFile pr f) s' = scanJsonFiles pr s'" for s'
    by (simp add: scanJsonFiles_def withoutFile_fields scanJsonFile_without foldl_removeAll_noop)
  have html: "scanHtmlFiles (withoutFile pr f) = scanHtmlFiles pr"
    by (intro ext) (simp add: scanHtmlFiles_def scanHtmlFile_without withoutFile_fields)
  have js: "scanJavaScriptFiles (withoutFile pr f) = scanJavaScriptFiles pr"
    by (intro ext) (simp add: scanJavaScriptFiles_def scanJavaScriptFile_without withoutFile_fields)
  show ?thesis
    by (simp add: findReferences_def json html js split: sum.splits)
qed

text \<open>
  A match of a pattern, taken alone, is matched by the pattern again: the inner
  \<^verbatim>\<open>match.match(re)\<close> of the loops over the matches is never \<^verbatim>\<open>null\<close>, and only a file
  that cannot be read makes the walk over the reference sources fail.
\<close>

lemma rxMatch_suffix:
  "rxMatch re s = Some r \<Longrightarrow> \<exists>m. s = m @ fst r \<and> rxMatch re m \<noteq> None"
proof (induction re s arbitrary: r rule: rxMatch.induct)
  case (1 s)
  then show ?case by auto
next
  case (3 c rs x xs)
  then have eq: "x = c" and "rxMatch rs xs = Some r" by (auto split: if_splits)
  from 3(1) [OF this] obtain m where "xs = m @ fst r" "rxMatch rs m \<noteq> None" by blast
  with eq have "x # xs = (x # m) @ fst r \<and> rxMatch (Lit c # rs) (x # m) \<noteq> None" by simp
  then show ?case by blast
next
  case (5 k rs x xs)
  then have eq: "inClass k x" and "rxMatch rs xs = Some r" by (auto split: if_splits)
  from 5(1) [OF this] obtain m where "xs = m @ fst r" "rxMatch rs m \<noteq> None" by blast
  with eq have "x # xs = (x # m) @ fst r \<and> rxMatch (Cls k # rs) (x # m) \<noteq> None" by simp
  then show ?case by blast
next
  case (6 k rs)
  then have "rxMatch rs [] = Some r" by simp
  from 6(1) [OF this] obtain m where "[] = m @ fst r" "rxMatch rs m \<noteq> None" by blast
  then have "[] = [] @ fst r \<and> rxMatch (Star k # rs) [] \<noteq> None" by simp
  then show ?case by blast
next
  case (7 k rs x xs)
  show ?case
  proof (cases "inClass k x \<and> rxMatch (Star k # rs) xs \<noteq> None")
    case True
    with 7(4) have "rxMatch (Star k # rs) xs = Some r" by (auto split: option.splits)
    from 7(1) [OF _ this] True obtain m where m: "xs = m @ fst r" "rxMatch (Star k # rs) m \<noteq> None"
      by blast
    with True have "x # xs = (x # m) @ fst r \<and> rxMatch (Star k # rs) (x # m) \<noteq> None"
      by (auto split: option.splits)
    then show ?thesis by blast
  next
    case False
    with 7(4) have rest: "rxMatch rs (x # xs) = Some r" by (auto split: option.splits if_splits)
    have "\<exists>m. x # xs = m @ fst r \<and> rxMatch rs m \<noteq> None"
    proof (cases "inClass k x")
      case True
      with False have "rxMatch (Star k # rs) xs = None"
        by (cases "rxMatch (Star k # rs) xs") simp_all
      from 7(2) [OF True this rest] show ?thesis .
    next
      case False
      from 7(3) [OF False rest] show ?thesis .
    qed
    then obtain m where m: "x # xs = m @ fst r" "rxMatch rs m \<noteq> None" by blast
    have "rxMatch (Star k # rs) m \<noteq> None"
    proof (cases m)
      case Nil
      with m(2) show ?thesis by simp
    next
      case (Cons y ys)
      with m(2) show ?thesis by (auto split: option.splits)
    qed
    with m(1) show ?thesis by blast
  qed
next
  case (9 k rs x xs)
  then have eq: "inClass k x" and "rxMatch (Star k # rs) xs = Some r" by (auto split: if_splits)
  from 9(1) [OF this] obtain m where "xs = m @ fst r" "rxMatch (Star k # rs) m \<noteq> None" by blast
  with eq have "x # xs = (x # m) @ fst r \<and> rxMatch (Plus k # rs) (x # m) \<noteq> None" by simp
  then show ?case by blast
next
  case (10 rs s)
  then obtain r' where r': "rxMatch rs s = Some r'" and "fst r = fst r'"
    by (auto split: option.splits)
  from 10(1) [OF r'] \<open>fst r = fst r'\<close> obtain m where "s = m @ fst r" "rxMatch rs m \<noteq> None" by auto
  then have "s = m @ fst r \<and> rxMatch (GroupOpen # rs) m \<noteq> None" by (auto split: option.splits)
  then show ?case by blast
next
  case (11 rs s)
  then obtain r' where r': "rxMatch rs s = Some r'" and "fst r = fst r'"
    by (auto split: option.splits)
  from 11(1) [OF r'] \<open>fst r = fst r'\<close> obtain m where "s = m @ fst r" "rxMatch rs m \<noteq> None" by auto
  then have "s = m @ fst r \<and> rxMatch (GroupClose # rs) m \<noteq> None" by (auto split: option.splits)
  then show ?case by blast
qed simp_all

lemma rxMatch_rematch: "rxMatch re s = Some r \<Longrightarrow> rxMatch re (matched s r) \<noteq> None"
proof -
  assume "rxMatch re s = Some r"
  from rxMatch_suffix [OF this] obtain m where "s = m @ fst r" "rxMatch re m \<noteq> None" by blast
  then show ?thesis by (simp add: matched_def)
qed

lemma matchFirst_at_start: "rxMatch re m \<noteq> None \<Longrightarrow> matchFirst m re \<noteq> None"
  by (cases m) (auto split: option.splits)

lemma matchAllFrom_rematch:
  "m \<in> set (matchAllFrom re skip s) \<Longrightarrow> matchFirst m re \<noteq> None"
proof (induction re skip s rule: matchAllFrom.induct)
  case (1 re skip)
  then have "m = [] \<and> rxMatch re [] \<noteq> None"
    by (cases "skip = 0"; cases "rxMatch re []") simp_all
  then show ?case using matchFirst_at_start [of re "[]"] by blast
next
  case (2 re skip x xs)
  note IH = "2.IH" and prem = "2.prems"
  show ?case
  proof (cases "0 < skip")
    case True
    with IH(1) prem show ?thesis by simp
  next
    case False
    show ?thesis
    proof (cases "rxMatch re (x # xs)")
      case None
      with IH(2) prem False show ?thesis by simp
    next
      case (Some r)
      with prem False consider "m = matched (x # xs) r"
        | "m \<in> set (matchAllFrom re (length (matched (x # xs) r) - 1) xs)"
        by auto
      then show ?thesis
      proof cases
        case here: 1
        then show ?thesis
          using rxMatch_rematch [OF Some] by (simp add: matchFirst_at_start)
      next
        case later: 2
        from \<open>\<not> 0 < skip\<close> Some later show ?thesis by (rule IH(3))
      qed
    qed
  qed
qed

lemma matchAll_rematch: "m \<in> set (matchAll s re) \<Longrightarrow> matchFirst m re \<noteq> None"
  by (simp add: matchAll_def matchAllFrom_rematch)

lemma foldE_completes:
  "(\<And>x s. x \<in> set xs \<Longrightarrow> \<exists>s'. g s x = Inr s') \<Longrightarrow> \<exists>s'. foldE g s xs = Inr s'"
proof (induction xs arbitrary: s)
  case Nil
  show ?case by simp
next
  case (Cons x xs)
  from Cons.prems [of x s] obtain s1 where s1: "g s x = Inr s1" by auto
  from Cons.IH [of s1] Cons.prems obtain s' where "foldE g s1 xs = Inr s'" by auto
  with s1 show ?case by simp
qed

lemma attrRefs_completes:
  "(\<And>m. m \<in> set ms \<Longrightarrow> matchFirst m (reAttr n) \<noteq> None) \<Longrightarrow> \<exists>st'. attrRefs n t f st ms = Inr st'"
proof (induction ms arbitrary: st)
  case Nil
  show ?case by simp
next
  case (Cons m ms)
  from Cons.prems [of m] obtain r where r: "matchFirst m (reAttr n) = Some r" by auto
  from Cons.IH [of "addReference st (snd r) f t"] Cons.prems
  obtain st' where "attrRefs n t f (addReference st (snd r) f t) ms = Inr st'" by auto
  with r show ?case by simp
qed

lemma hrefRefs_completes:
  "(\<And>m. m \<in> set ms \<Longrightarrow> matchFirst m (reAttr ''href'') \<noteq> None) \<Longrightarrow> \<exists>st'. hrefRefs f st ms = Inr st'"
proof (induction ms arbitrary: st)
  case Nil
  show ?case by simp
next
  case (Cons m ms)
  from Cons.prems [of m] obtain r where r: "matchFirst m (reAttr ''href'') = Some r" by auto
  define st1 where
    "st1 = (if includesStr (snd r) ''/api/'' then scanForApiUrlPatterns st (snd r) f else st)"
  from Cons.IH [of st1] Cons.prems obtain st' where "hrefRefs f st1 ms = Inr st'" by auto
  with r show ?case by (simp add: st1_def)
qed

lemma callRefs_completes:
  "(\<And>m. m \<in> set ms \<Longrightarrow> matchFirst m re \<noteq> None) \<Longrightarrow> \<exists>st'. callRefs re t f st ms = Inr st'"
proof (induction ms arbitrary: st)
  case Nil
  show ?case by simp
next
  case (Cons m ms)
  from Cons.prems [of m] obtain r where r: "matchFirst m re = Some r" by auto
  define st1 where
    "st1 = (if startsWith (snd r) ''/api/'' then addReference st (snd r) f t else st)"
  from Cons.IH [of st1] Cons.prems obtain st' where "callRefs re t f st1 ms = Inr st'" by auto
  with r show ?case by (simp add: st1_def)
qed

lemma scanHtmlFile_completes:
  assumes "readFile pr f \<noteq> None"
  shows "\<exists>st'. scanHtmlFile pr st f = Inr st'"
proof -
  from assms obtain c where c: "readFile pr f = Some c" by auto
  obtain st1 where 1: "attrRefs ''url'' ''html-url'' f st (matchAll c (reAttr ''url'')) = Inr st1"
    using attrRefs_completes [of "matchAll c (reAttr ''url'')" "''url''"] matchAll_rematch by blast
  obtain st2 where 2: "attrRefs ''action'' ''html-action'' f st1 (matchAll c (reAttr ''action'')) = Inr st2"
    using attrRefs_completes [of "matchAll c (reAttr ''action'')" "''action''"] matchAll_rematch by blast
  obtain st3 where 3: "hrefRefs f st2 (matchAll c (reAttr ''href'')) = Inr st3"
    using hrefRefs_completes [of "matchAll c (reAttr ''href'')"] matchAll_rematch by blast
  show ?thesis
    by (simp add: scanHtmlFile_def c 1 2 3)
qed

lemma scanJavaScriptFile_completes:
  assumes "readFile pr f \<noteq> None"
  shows "\<exists>st'. scanJavaScriptFile pr st f = Inr st'"
proof -
  from assms obtain c where c: "readFile pr f = Some c" by auto
  obtain st1 where 1: "callRefs reFetch ''js-fetch'' f st (matchAll c reFetch) = Inr st1"
    using callRefs_completes [of "matchAll c reFetch" reFetch] matchAll_rematch by blast
  obtain st2 where 2: "callRefs reAjax ''js-ajax'' f st1 (matchAll c reAjax) = Inr st2"
    using callRefs_completes [of "matchAll c reAjax" reAjax] matchAll_rematch by blast
  show ?thesis
    by (simp add: scanJavaScriptFile_def c 1 2)
qed

lemma scan_completes:
  assumes "\<forall>f \<in> set (globHtml pr) \<union> set (globJs pr). readFile pr f \<noteq> None"
  shows "\<exists>s r. scan pr st = Inr (s, r)"
proof -
  obtain st1 where 1: "scanHtmlFiles pr (discoverServerActions pr st) = Inr st1"
    unfolding scanHtmlFiles_def
    using foldE_completes [of "globHtml pr" "scanHtmlFile pr"] scanHtmlFile_completes assms
    by (metis UnCI)
  obtain st2 where 2: "scanJavaScriptFiles pr (scanJsonFiles pr st1) = Inr st2"
    unfolding scanJavaScriptFiles_def
    using foldE_completes [of "globJs pr" "scanJavaScriptFile pr"] scanJavaScriptFile_completes assms
    by (metis UnCI)
  show ?thesis
    by (simp add: scan_def findReferences_def 1 2)
qed

lemma scan_without_related:
  assumes "readJson pr f = None"
  shows "rel_sum (=) (\<lambda>x y. snd x = snd y \<and> sameButWarnings (fst x) (fst y))
           (scan pr st) (scan (withoutFile pr f) st)"
proof -
  have d: "sameButWarnings (discoverServerActions pr st) (discoverServerActions (withoutFile pr f) st)"
    unfolding discoverServerActions_def withoutFile_fields discoverFile_without
    using assms by (rule discover_without) (simp add: sameButWarnings_def)
  have "rel_sum (=) sameButWarnings
          (findReferences pr (discoverServerActions pr st))
          (findReferences pr (discoverServerActions (withoutFile pr f) st))"
    using preserved_sameButWarnings d by (rule findReferences_related)
  then have "rel_sum (=) sameButWarnings
          (findReferences pr (discoverServerActions pr st))
          (findReferences (withoutFile pr f) (discoverServerActions (withoutFile pr f) st))"
    by (simp add: findReferences_without [OF assms])
  then show ?thesis
    by (cases "findReferences pr (discoverServerActions pr st)";
        cases "findReferences (withoutFile pr f) (discoverServerActions (withoutFile pr f) st)")
       (auto simp: scan_def withoutFile_fields sameButWarnings_def analyzeResults_def)
qed

lemma scan_warns:
  assumes "readJson pr f = None" "f \<in> set (globActions pr)" "scan pr st = Inr (s, r)"
  shows "(''Warning: Could not parse '' @ pathRelative (projectRoot st) f) \<in> set (warnings s)"
proof -
  from assms(3) have "findReferences pr (discoverServerActions pr st) = Inr s"
    by (auto simp: scan_def split: sum.splits)
  from findReferences_keeps [OF this] have "warnings s = warnings (discoverServerActions pr st)"
    by simp
  then show ?thesis
    using warnings_discover_unparsable [OF assms(1,2), of st]
    by (simp add: discoverServerActions_def)
qed

text \<open>
  C8. A file of the action and library trees that does not parse changes nothing but the
  warnings: the scan fails or completes as the scan of the project without the file
  does, with the same results, the same index of actions and the same auxiliary lookup,
  and it has written a warning for the file. The scan completes whenever every markup
  and script file can be read.
\<close>

theorem scan_skips_unparsable:
  "readJson pr f = None \<Longrightarrow>
   (\<forall>e. (scan pr st = Inl e) = (scan (withoutFile pr f) st = Inl e)) \<and>
   (\<forall>s' r. scan (withoutFile pr f) st = Inr (s', r) \<longrightarrow>
      (\<exists>s. scan pr st = Inr (s, r) \<and> serverActions s = serverActions s' \<and>
           refLookup s = refLookup s' \<and>
           (f \<in> set (globActions pr) \<longrightarrow>
              (''Warning: Could not parse '' @ pathRelative (projectRoot st) f) \<in> set (warnings s)))) \<and>
   ((\<forall>g \<in> set (globHtml pr) \<union> set (globJs pr). readFile pr g \<noteq> None) \<longrightarrow>
      (\<exists>s r. scan pr st = Inr (s, r)))"
proof -
  assume none: "readJson pr f = None"
  have rel: "rel_sum (=) (\<lambda>x y. snd x = snd y \<and> sameButWarnings (fst x) (fst y))
           (scan pr st) (scan (withoutFile pr f) st)"
    using none by (rule scan_without_related)
  have errs: "\<forall>e. (scan pr st = Inl e) = (scan (withoutFile pr f) st = Inl e)"
    using rel by (cases "scan pr st"; cases "scan (withoutFile pr f) st") auto
  have oks: "\<exists>s. scan pr st = Inr (s, r) \<and> serverActions s = serverActions s' \<and>
           refLookup s = refLookup s' \<and>
           (f \<in> set (globActions pr) \<longrightarrow>
              (''Warning: Could not parse '' @ pathRelative (projectRoot st) f) \<in> set (warnings s))"
    if ok: "scan (withoutFile pr f) st = Inr (s', r)" for s' r
  proof -
    from rel ok obtain s where s: "scan pr st = Inr (s, r)" "sameButWarnings s s'"
      by (cases "scan pr st") auto
    then show ?thesis
      using scan_warns [OF none _ s(1)] by (auto simp: sameButWarnings_def)
  qed
  have completes: "(\<forall>g \<in> set (globHtml pr) \<union> set (globJs pr). readFile pr g \<noteq> None) \<longrightarrow>
      (\<exists>s r. scan pr st = Inr (s, r))"
    using scan_completes by blast
  from errs oks completes show ?thesis by blast
qed

lemma demo_scan_summary:
  "map_sum id (\<lambda>x. res_summary (snd x)) (scan demoProject (newScanner ''/proj'')) =
     Inr \<lparr>totalActions = 3, used = 2, possiblyUnused = 0, likelyUnused = 1\<rparr>"
  by code_simp

lemma demo_scan_without_broken:
  "map_sum id (\<lambda>x. map res_urlPath (res_actions (snd x)))
     (scan (withoutFile demoProject ''/proj/app/api/broken.json'') (newScanner ''/proj'')) =
     Inr [''/api/old'', ''/api/a'', ''lib/check'']"
  by code_simp

theorem scan_skips_unparsable_witness:
  "readJson demoProject ''/proj/app/api/broken.json'' = None \<and>
   readFile demoProject ''/proj/views/index.ejs'' \<noteq> None \<and>
   readFile demoProject ''/proj/public/js/main.js'' \<noteq> None \<and>
   (\<exists>s r. scan demoProject (newScanner ''/proj'') = Inr (s, r) \<and>
      map res_urlPath (res_actions r) = [''/api/old'', ''/api/a'', ''lib/check''] \<and>
      ''Warning: Could not parse app/api/broken.json'' \<in> set (warnings s))"
proof -
  have none: "readJson demoProject ''/proj/app/api/broken.json'' = None"
    by (simp add: demoProject_def)
  have listed: "''/proj/app/api/broken.json'' \<in> set (globActions demoProject)"
    by (simp add: demoProject_def)
  have rel: "pathRelative (projectRoot (newScanner ''/proj'')) ''/proj/app/api/broken.json'' =
             ''app/api/broken.json''"
    by code_simp
  obtain s' r where ok: "scan (withoutFile demoProject ''/proj/app/api/broken.json'') (newScanner ''/proj'') = Inr (s', r)"
    and acts: "map res_urlPath (res_actions r) = [''/api/old'', ''/api/a'', ''lib/check'']"
    using demo_scan_without_broken
    by (cases "scan (withoutFile demoProject ''/proj/app/api/broken.json'') (newScanner ''/proj'')") auto
  have readable: "\<forall>g \<in> set (globHtml demoProject) \<union> set (globJs demoProject).
      readFile demoProject g \<noteq> None"
    by (simp add: demoProject_def)
  from scan_skips_unparsable [OF none, of "newScanner ''/proj''"] readable
  have "\<exists>s r. scan demoProject (newScanner ''/proj'') = Inr (s, r)"
    by blast
  from scan_skips_unparsable [OF none, of "newScanner ''/proj''"] ok listed
  obtain s where "scan demoProject (newScanner ''/proj'') = Inr (s, r)"
    "(''Warning: Could not parse '' @
        pathRelative (projectRoot (newScanner ''/proj'')) ''/proj/app/api/broken.json'') \<in> set (warnings s)"
    by blast
  moreover have "readFile demoProject ''/proj/views/index.ejs'' \<noteq> None"
    "readFile demoProject ''/proj/public/js/main.js'' \<noteq> None"
    by (simp_all add: demoProject_def)
  ultimately show ?thesis
    using none acts rel by auto
qed











































lemma summary_invariant:
  "totalActions (res_summary (analyzeResults st)) =
     used (res_summary (analyzeResults st)) + likelyUnused (res_summary (analyzeResults st)) \<and>
   possiblyUnused (res_summary (analyzeResults st)) = 0"
proof -
  have "length (filter (\<lambda>ka. references (snd ka) \<noteq> []) m) +
        length (filter (\<lambda>ka. references (snd ka) = []) m) = length m" for m :: "(string \<times> action) list"
    by (induction m) simp_all
  then show ?thesis
    by (simp add: analyzeResults_summary)
qed

lemma two_tiers:
  "ra \<in> set (res_actions (analyzeResults st)) \<Longrightarrow>
   res_confidence ra = ''safe-to-delete'' \<or> res_confidence ra = ''review-needed''"
  by (auto simp: set_analyzeResults_actions resultOf_def split: if_splits)

text \<open>
  C9. In the results of \<open>analyzeResults\<close>, and so in the results of every scan that
  completes, \<open>totalActions\<close> is the sum of \<open>used\<close> and \<open>likelyUnused\<close>, \<open>possiblyUnused\<close> is 0,
  and every action has one of the two confidences \<open>safe-to-delete\<close> and \<open>review-needed\<close>.
\<close>

theorem scan_summary_invariant:
  "totalActions (res_summary (analyzeResults st)) =
     used (res_summary (analyzeResults st)) + likelyUnused (res_summary (analyzeResults st)) \<and>
   possiblyUnused (res_summary (analyzeResults st)) = 0 \<and>
   (\<forall>ra \<in> set (res_actions (analyzeResults st)).
      res_confidence ra = ''safe-to-delete'' \<or> res_confidence ra = ''review-needed'') \<and>
   (\<forall>s r. scan pr st = Inr (s, r) \<longrightarrow>
      totalActions (res_summary r) = used (res_summary r) + likelyUnused (res_summary r) \<and>
      possiblyUnused (res_summary r) = 0 \<and>
      (\<forall>ra \<in> set (res_actions r).
         res_confidence ra = ''safe-to-delete'' \<or> res_confidence ra = ''review-needed''))"
proof -
  have scanned: "totalActions (res_summary r) = used (res_summary r) + likelyUnused (res_summary r) \<and>
      possiblyUnused (res_summary r) = 0 \<and>
      (\<forall>ra \<in> set (res_actions r).
         res_confidence ra = ''safe-to-delete'' \<or> res_confidence ra = ''review-needed'')"
    if "scan pr st = Inr (s, r)" for s r
  proof -
    from that have "res_summary r = res_summary (analyzeResults s)"
      and "res_actions r = res_actions (analyzeResults s)"
      by (auto simp: scan_def split: sum.splits)
    then show ?thesis
      using summary_invariant [of s] two_tiers [of _ s] by simp
  qed
  have tiers: "\<forall>ra \<in> set (res_actions (analyzeResults st)).
      res_confidence ra = ''safe-to-delete'' \<or> res_confidence ra = ''review-needed''"
    using two_tiers by blast
  from summary_invariant [of st] tiers scanned show ?thesis
    by blast
qed

theorem scan_summary_invariant_witness:
  "\<exists>s r. scan demoProject (newScanner ''/proj'') = Inr (s, r) \<and>
     totalActions (res_summary r) = 3 \<and> used (res_summary r) = 2 \<and>
     likelyUnused (res_summary r) = 1 \<and> possiblyUnused (res_summary r) = 0"
proof -
  obtain s r where first: "scan demoProject (newScanner ''/proj'') = Inr (s, r)"
    and sum: "used (res_summary r) = 2" "likelyUnused (res_summary r) = 1"
    using demo_scan_summary by (cases "scan demoProject (newScanner ''/proj'')") auto
  from scan_summary_invariant [of "newScanner ''/proj''" demoProject] first
  have "totalActions (res_summary r) = used (res_summary r) + likelyUnused (res_summary r) \<and>
      possiblyUnused (res_summary r) = 0"
    by blast
  with first sum show ?thesis by auto
qed

end
